theory Spec2Isabelle
  imports Complex_Main "HOL-Library.Word"
begin

section \<open>The maze widget: data model\<close>

text \<open>
  A shallow embedding of \<^verbatim>\<open>src/createMazeWidget.js\<close>. JavaScript exceptions are values:
  every property read or write on \<^verbatim>\<open>undefined\<close> (an array index out of range followed by
  a property access) is the error \<open>TypeError\<close>, the left injection of a sum.
\<close>

datatype error = TypeError

text \<open>Sequencing of fallible steps: the first exception ends the computation.\<close>

definition andThen :: "error + 'a \<Rightarrow> ('a \<Rightarrow> error + 'b) \<Rightarrow> error + 'b" where
  "andThen m f = (case m of Inl e \<Rightarrow> Inl e | Inr v \<Rightarrow> f v)"

text \<open>The four property names of a cell's \<^verbatim>\<open>walls\<close> object.\<close>

datatype side = Top | Right | Bottom | Left

text \<open>\<^verbatim>\<open>walls: { top: true, right: true, bottom: true, left: true }\<close>\<close>

record walls =
  top_w :: bool
  right_w :: bool
  bottom_w :: bool
  left_w :: bool

text \<open>\<^verbatim>\<open>{ visited: false, walls: {...} }\<close>\<close>

record cell =
  visited :: bool
  walls :: walls

text \<open>The grid is an array of rows; \<^verbatim>\<open>grid[y][x]\<close> is the cell of column \<open>x\<close> in row \<open>y\<close>.\<close>

type_synonym grid = "cell list list"

text \<open>A coordinate pair \<^verbatim>\<open>{x, y}\<close>, as the stack holds them.\<close>

type_synonym pos = "int \<times> int"

text \<open>\<^verbatim>\<open>w[s]\<close>: reading the wall flag named by a side.\<close>

fun get_wall :: "side \<Rightarrow> walls \<Rightarrow> bool" where
  "get_wall Top w = top_w w"
| "get_wall Right w = right_w w"
| "get_wall Bottom w = bottom_w w"
| "get_wall Left w = left_w w"

text \<open>\<^verbatim>\<open>w[s] = false\<close>: clearing the wall flag named by a side.\<close>

fun clear_wall :: "side \<Rightarrow> walls \<Rightarrow> walls" where
  "clear_wall Top w = w\<lparr>top_w := False\<rparr>"
| "clear_wall Right w = w\<lparr>right_w := False\<rparr>"
| "clear_wall Bottom w = w\<lparr>bottom_w := False\<rparr>"
| "clear_wall Left w = w\<lparr>left_w := False\<rparr>"

subsection \<open>The seeded random generator\<close>

text \<open>
  \<^verbatim>\<open>x >>> 0\<close> is ToUint32 of a (finite) Number: the fraction is dropped, towards zero, and
  the integer is reduced modulo \<open>2^32\<close>.
\<close>

definition trunc :: "real \<Rightarrow> int" where
  "trunc x = (if 0 \<le> x then \<lfloor>x\<rfloor> else \<lceil>x\<rceil>)"

definition to_uint32 :: "real \<Rightarrow> 32 word" where
  "to_uint32 x = word_of_int (trunc x)"

text \<open>
  \<^verbatim>\<open>let state = seed >>> 0\<close>: the closure returned by \<^verbatim>\<open>createSeededRandom\<close> is
  represented by its captured variable \<open>state\<close>.
\<close>

definition createSeededRandom :: "real \<Rightarrow> 32 word" where
  "createSeededRandom seed = to_uint32 seed"

text \<open>
  One call of the closure: \<^verbatim>\<open>state = (state * 1664525 + 1013904223) >>> 0;
  return state / 2 ** 32\<close>. The product and the sum are computed on Numbers (they stay
  below \<open>2^53\<close>, so they are exact integers, see \<open>rnd_arithmetic_exact\<close>) and \<^verbatim>\<open>>>> 0\<close>
  reduces modulo \<open>2^32\<close>. The result is the new state and the returned value.
\<close>

definition rnd :: "32 word \<Rightarrow> 32 word \<times> real" where
  "rnd state =
     (let state' = to_uint32 (real_of_int (uint state) * 1664525 + 1013904223)
      in (state', real (unat state') / 2 ^ 32))"

text \<open>
  The value returned by call number \<open>k\<close> (the first call is number 0) of a generator that is
  in state \<open>s\<close>: \<open>k\<close> calls whose values are dropped, then one more.
\<close>

fun rnd_output :: "nat \<Rightarrow> 32 word \<Rightarrow> real" where
  "rnd_output 0 s = snd (rnd s)"
| "rnd_output (Suc k) s = rnd_output k (fst (rnd s))"

subsection \<open>Grid creation and indexing\<close>

text \<open>
  \<^verbatim>\<open>Array.from({ length: rows }, () => Array.from({ length: cols }, () => ({...})))\<close>.
  A negative length gives an empty array.
\<close>

definition new_cell :: cell where
  "new_cell = \<lparr>visited = False,
     walls = \<lparr>top_w = True, right_w = True, bottom_w = True, left_w = True\<rparr>\<rparr>"

definition createGrid :: "int \<Rightarrow> int \<Rightarrow> grid" where
  "createGrid cols rows = replicate (nat rows) (replicate (nat cols) new_cell)"

text \<open>
  \<^verbatim>\<open>grid[y][x].p\<close>: \<^verbatim>\<open>grid[y]\<close> is \<^verbatim>\<open>undefined\<close> when \<open>y\<close> is not an index of the
  array, and then \<^verbatim>\<open>undefined[x]\<close> throws; \<^verbatim>\<open>grid[y][x]\<close> is \<^verbatim>\<open>undefined\<close> when \<open>x\<close>
  is not an index of the row, and then the property access throws.
\<close>

definition get_cell :: "grid \<Rightarrow> pos \<Rightarrow> error + cell" where
  "get_cell g p =
     (let x = fst p; y = snd p in
      if 0 \<le> y \<and> y < int (length g) then
        (let row = g ! nat y in
         if 0 \<le> x \<and> x < int (length row) then Inr (row ! nat x) else Inl TypeError)
      else Inl TypeError)"

text \<open>
  \<^verbatim>\<open>grid[y][x].p = v\<close>: the cell object is changed in place; it throws as the read does.
\<close>

definition set_cell :: "grid \<Rightarrow> pos \<Rightarrow> (cell \<Rightarrow> cell) \<Rightarrow> error + grid" where
  "set_cell g p f =
     (case get_cell g p of
        Inl e \<Rightarrow> Inl e
      | Inr c \<Rightarrow> Inr (g[nat (snd p) := (g ! nat (snd p))[nat (fst p) := f c]]))"

subsection \<open>Carving\<close>

text \<open>\<^verbatim>\<open>{ dx, dy, wall, opp }\<close>\<close>

record dir =
  dx :: int
  dy :: int
  wall :: side
  opp :: side

definition dirs :: "dir list" where
  "dirs =
     [\<lparr>dx = 0, dy = - 1, wall = Top, opp = Bottom\<rparr>,
      \<lparr>dx = 1, dy = 0, wall = Right, opp = Left\<rparr>,
      \<lparr>dx = 0, dy = 1, wall = Bottom, opp = Top\<rparr>,
      \<lparr>dx = - 1, dy = 0, wall = Left, opp = Right\<rparr>]"

text \<open>\<^verbatim>\<open>{ ...d, nx: x + d.dx, ny: y + d.dy }\<close>\<close>

record neighbor = dir +
  nx :: int
  ny :: int

definition with_target :: "int \<Rightarrow> int \<Rightarrow> dir \<Rightarrow> neighbor" where
  "with_target x y d =
     \<lparr>dx = dx d, dy = dy d, wall = wall d, opp = opp d, nx = x + dx d, ny = y + dy d\<rparr>"

text \<open>\<^verbatim>\<open>Array.prototype.filter\<close> with a predicate that may throw.\<close>

fun filter_err :: "('a \<Rightarrow> error + bool) \<Rightarrow> 'a list \<Rightarrow> error + 'a list" where
  "filter_err p [] = Inr []"
| "filter_err p (a # as) =
     (case p a of
        Inl e \<Rightarrow> Inl e
      | Inr b \<Rightarrow>
          (case filter_err p as of
             Inl e \<Rightarrow> Inl e
           | Inr r \<Rightarrow> Inr (if b then a # r else r)))"

text \<open>
  The filter predicate of \<^verbatim>\<open>neighborsUnvisited\<close>: the conjunction short-circuits, so the grid
  is read only when the four comparisons hold.
\<close>

definition in_bounds_unvisited :: "int \<Rightarrow> int \<Rightarrow> grid \<Rightarrow> neighbor \<Rightarrow> error + bool" where
  "in_bounds_unvisited cols rows g n =
     (if nx n \<ge> 0 \<and> nx n < cols \<and> ny n \<ge> 0 \<and> ny n < rows
      then (case get_cell g (nx n, ny n) of
              Inl e \<Rightarrow> Inl e
            | Inr c \<Rightarrow> Inr (\<not> visited c))
      else Inr False)"

definition neighborsUnvisited :: "int \<Rightarrow> int \<Rightarrow> grid \<Rightarrow> int \<Rightarrow> int \<Rightarrow> error + neighbor list" where
  "neighborsUnvisited cols rows g x y =
     filter_err (in_bounds_unvisited cols rows g) (map (with_target x y) dirs)"

text \<open>\<^verbatim>\<open>unv[i]\<close> followed by a property read: it throws when \<open>i\<close> is not an index.\<close>

definition nth_err :: "'a list \<Rightarrow> int \<Rightarrow> error + 'a" where
  "nth_err xs i = (if 0 \<le> i \<and> i < int (length xs) then Inr (xs ! nat i) else Inl TypeError)"

text \<open>
  The state of the loop: the grid, the stack (the head of the list is the top of the stack,
  the last element of the JavaScript array) and the state of the generator.
\<close>

type_synonym carve_state = "grid \<times> pos list \<times> 32 word"

text \<open>
  One iteration of the body of \<^verbatim>\<open>while (stack.length) { ... }\<close>. The loop enters it
  with a non-empty stack only; on an empty stack \<^verbatim>\<open>stack[stack.length - 1]\<close> is
  \<^verbatim>\<open>undefined\<close> and \<^verbatim>\<open>cur.x\<close> throws. The index is
  \<^verbatim>\<open>Math.floor(rnd() * unv.length)\<close>; the product is exact, since the value of \<^verbatim>\<open>rnd()\<close> is a
  multiple of \<open>2^-32\<close> below 1 and the length is at most 4.
\<close>

definition carve_step :: "int \<Rightarrow> int \<Rightarrow> carve_state \<Rightarrow> error + carve_state" where
  "carve_step cols rows s =
     (case s of (g, stack, state) \<Rightarrow>
        (case stack of
           [] \<Rightarrow> Inl TypeError
         | cur # rest \<Rightarrow>
             andThen (neighborsUnvisited cols rows g (fst cur) (snd cur)) (\<lambda>unv.
               if unv \<noteq> [] then
                 (case rnd state of (state', r) \<Rightarrow>
                    andThen (nth_err unv \<lfloor>r * real (length unv)\<rfloor>) (\<lambda>next.
                    andThen (set_cell g cur (\<lambda>c. c\<lparr>walls := clear_wall (wall next) (walls c)\<rparr>)) (\<lambda>g1.
                    andThen (set_cell g1 (nx next, ny next)
                               (\<lambda>c. c\<lparr>walls := clear_wall (opp next) (walls c)\<rparr>)) (\<lambda>g2.
                    andThen (set_cell g2 (nx next, ny next) (\<lambda>c. c\<lparr>visited := True\<rparr>)) (\<lambda>g3.
                    Inr (g3, (nx next, ny next) # stack, state'))))))
               else Inr (g, rest, state))))"

subsection \<open>The carving loop terminates on every state\<close>

text \<open>
  The number of unvisited cells of the grid. Twice this number plus the height of the stack
  decreases with every iteration: a push marks one more cell visited, a pop shortens the stack.
\<close>

definition unvisited_count :: "grid \<Rightarrow> nat" where
  "unvisited_count g = sum_list (map (\<lambda>row. sum_list (map (\<lambda>c. if visited c then 0 else 1) row)) g)"

lemma sum_list_map_update:
  fixes f :: "'a \<Rightarrow> nat"
  assumes "i < length xs"
  shows "sum_list (map f (xs[i := v])) + f (xs ! i) = sum_list (map f xs) + f v"
  using assms
proof (induction xs arbitrary: i)
  case Nil
  then show ?case by simp
next
  case (Cons a xs)
  then show ?case by (cases i) auto
qed

lemma get_cell_InrD:
  "get_cell g p = Inr c \<Longrightarrow>
     0 \<le> snd p \<and> nat (snd p) < length g \<and> 0 \<le> fst p \<and> nat (fst p) < length (g ! nat (snd p)) \<and>
     c = g ! nat (snd p) ! nat (fst p)"
  by (auto simp: get_cell_def Let_def split: if_splits)

lemma set_cell_count:
  assumes "set_cell g p f = Inr g'" and "get_cell g p = Inr c"
  shows "unvisited_count g' + (if visited c then 0 else 1)
       = unvisited_count g + (if visited (f c) then 0 else 1)"
proof -
  let ?h = "\<lambda>c::cell. if visited c then 0 else (1::nat)"
  let ?H = "\<lambda>row. sum_list (map ?h row)"
  from get_cell_InrD[OF assms(2)] have y: "nat (snd p) < length g"
    and x: "nat (fst p) < length (g ! nat (snd p))" and c: "c = g ! nat (snd p) ! nat (fst p)"
    by auto
  have g': "g' = g[nat (snd p) := (g ! nat (snd p))[nat (fst p) := f c]]"
    using assms by (simp add: set_cell_def)
  have "?H ((g ! nat (snd p))[nat (fst p) := f c]) + ?h c = ?H (g ! nat (snd p)) + ?h (f c)"
    using sum_list_map_update[OF x, of ?h "f c"] c by simp
  moreover have "sum_list (map ?H g') + ?H (g ! nat (snd p))
      = sum_list (map ?H g) + ?H ((g ! nat (snd p))[nat (fst p) := f c])"
    unfolding g' using sum_list_map_update[OF y, of ?H] by simp
  ultimately show ?thesis unfolding unvisited_count_def by linarith
qed

lemma get_set_cell_same:
  assumes "set_cell g p f = Inr g'" and "get_cell g p = Inr c"
  shows "get_cell g' p = Inr (f c)"
  using assms get_cell_InrD[OF assms(2)]
  by (auto simp: set_cell_def get_cell_def Let_def)

lemma set_cell_InrD: "set_cell g p f = Inr g' \<Longrightarrow> \<exists>c. get_cell g p = Inr c"
  by (auto simp: set_cell_def split: sum.splits)

lemma filter_err_set:
  "filter_err p xs = Inr ys \<Longrightarrow> n \<in> set ys \<Longrightarrow> n \<in> set xs \<and> p n = Inr True"
  by (induction xs arbitrary: ys) (auto split: sum.splits if_splits)

lemma neighborsUnvisited_member:
  assumes "neighborsUnvisited cols rows g x y = Inr unv" and "n \<in> set unv"
  shows "\<exists>c. get_cell g (nx n, ny n) = Inr c \<and> \<not> visited c"
  using filter_err_set[OF assms[unfolded neighborsUnvisited_def]]
  by (auto simp: in_bounds_unvisited_def split: if_splits sum.splits)

lemma nth_err_member: "nth_err xs i = Inr a \<Longrightarrow> a \<in> set xs"
  by (auto simp: nth_err_def split: if_splits)

lemma get_cell_in:
  "0 \<le> y \<Longrightarrow> nat y < length g \<Longrightarrow> 0 \<le> x \<Longrightarrow> nat x < length (g ! nat y) \<Longrightarrow>
     get_cell g (x, y) = Inr (g ! nat y ! nat x)"
  by (simp add: get_cell_def Let_def nat_less_iff)

lemma get_cell_out:
  "\<not> (0 \<le> y \<and> nat y < length g \<and> 0 \<le> x \<and> nat x < length (g ! nat y)) \<Longrightarrow>
     get_cell g (x, y) = Inl TypeError"
  by (auto simp: get_cell_def Let_def nat_less_iff)

lemma get_cell_set_cell:
  assumes "set_cell g p f = Inr g'"
  shows "get_cell g' q = (case get_cell g q of Inl e \<Rightarrow> Inl e | Inr c \<Rightarrow> Inr (if q = p then f c else c))"
proof -
  obtain px py where p: "p = (px, py)" by (cases p)
  obtain qx qy where q: "q = (qx, qy)" by (cases q)
  from set_cell_InrD[OF assms] obtain c0 where c0: "get_cell g p = Inr c0" by auto
  from get_cell_InrD[OF c0] have b: "0 \<le> py" "nat py < length g" "0 \<le> px"
      "nat px < length (g ! nat py)" "c0 = g ! nat py ! nat px"
    by (auto simp: p)
  have g': "g' = g[nat py := (g ! nat py)[nat px := f c0]]"
    using assms c0 by (simp add: set_cell_def p)
  have len: "length g' = length g" by (simp add: g')
  have row: "\<And>k. k < length g \<Longrightarrow> length (g' ! k) = length (g ! k)"
    using b by (auto simp: g' nth_list_update)
  show ?thesis
  proof (cases "0 \<le> qy \<and> nat qy < length g \<and> 0 \<le> qx \<and> nat qx < length (g ! nat qy)")
    case False
    then have "\<not> (0 \<le> qy \<and> nat qy < length g' \<and> 0 \<le> qx \<and> nat qx < length (g' ! nat qy))"
      using len row by auto
    then show ?thesis using False by (simp add: q get_cell_out)
  next
    case True
    then have 1: "get_cell g q = Inr (g ! nat qy ! nat qx)" by (simp add: q get_cell_in)
    have 2: "get_cell g' q = Inr (g' ! nat qy ! nat qx)"
      using True len row by (simp add: q get_cell_in)
    have "g' ! nat qy ! nat qx = (if q = p then f (g ! nat qy ! nat qx) else g ! nat qy ! nat qx)"
    proof (cases "nat qy = nat py")
      case y: True
      then have "qy = py" using True b by linarith
      show ?thesis
      proof (cases "nat qx = nat px")
        case x: True
        then have "qx = px" using True b by linarith
        then show ?thesis using \<open>qy = py\<close> b by (simp add: g' p q)
      next
        case x: False
        then have "qx \<noteq> px" by auto
        then show ?thesis using x \<open>qy = py\<close> b by (simp add: g' p q)
      qed
    next
      case y: False
      then have "qy \<noteq> py" by auto
      then show ?thesis using y by (simp add: g' p q)
    qed
    then show ?thesis using 1 2 by simp
  qed
qed

lemma carve_step_decreases:
  assumes "carve_step cols rows (g, stack, state) = Inr (g', stack', state')" and "stack \<noteq> []"
  shows "2 * unvisited_count g' + length stack' < 2 * unvisited_count g + length stack"
proof -
  obtain cur rest where st: "stack = cur # rest" using assms(2) by (cases stack) auto
  obtain unv where unv: "neighborsUnvisited cols rows g (fst cur) (snd cur) = Inr unv"
    using assms(1) st by (auto simp: carve_step_def andThen_def split: sum.splits)
  show ?thesis
  proof (cases "unv = []")
    case True
    then show ?thesis using assms(1) st unv by (auto simp: carve_step_def andThen_def)
  next
    case False
    obtain st1 r where r: "rnd state = (st1, r)" by (cases "rnd state")
    from assms(1) st unv False r obtain "next" g1 g2 where
      nx: "nth_err unv \<lfloor>r * real (length unv)\<rfloor> = Inr next" and
      g1: "set_cell g cur (\<lambda>c. c\<lparr>walls := clear_wall (wall next) (walls c)\<rparr>) = Inr g1" and
      g2: "set_cell g1 (nx next, ny next) (\<lambda>c. c\<lparr>walls := clear_wall (opp next) (walls c)\<rparr>) = Inr g2" and
      g3: "set_cell g2 (nx next, ny next) (\<lambda>c. c\<lparr>visited := True\<rparr>) = Inr g'" and
      stk: "stack' = (nx next, ny next) # stack"
      by (auto simp: carve_step_def andThen_def split: sum.splits)
    from neighborsUnvisited_member[OF unv nth_err_member[OF nx]] obtain c where
      c: "get_cell g (nx next, ny next) = Inr c" "\<not> visited c" by auto
    let ?fw = "\<lambda>s (c::cell). c\<lparr>walls := clear_wall s (walls c)\<rparr>"
    from set_cell_InrD[OF g1] obtain c0 where c0: "get_cell g cur = Inr c0" by auto
    have n1: "unvisited_count g1 = unvisited_count g"
      using set_cell_count[OF g1 c0] by simp
    have c1: "get_cell g1 (nx next, ny next)
        = Inr (if (nx next, ny next) = cur then ?fw (wall next) c else c)"
      using get_cell_set_cell[OF g1, of "(nx next, ny next)"] c by simp
    have n2: "unvisited_count g2 = unvisited_count g1"
      using set_cell_count[OF g2 c1] by simp
    have c2: "get_cell g2 (nx next, ny next)
        = Inr (?fw (opp next) (if (nx next, ny next) = cur then ?fw (wall next) c else c))"
      using get_cell_set_cell[OF g2, of "(nx next, ny next)"] c1 by simp
    have "unvisited_count g' + 1 = unvisited_count g2"
      using set_cell_count[OF g3 c2] c(2) by (simp split: if_splits)
    then show ?thesis using n1 n2 stk by simp
  qed
qed

text \<open>
  \<^verbatim>\<open>while (stack.length) { ... }\<close>: the loop runs \<open>carve_step\<close> until the stack is empty; an
  exception ends it.
\<close>

function carve_loop :: "int \<Rightarrow> int \<Rightarrow> carve_state \<Rightarrow> error + carve_state" where
  "carve_loop cols rows (g, stack, state) =
     (if stack = [] then Inr (g, stack, state)
      else (case carve_step cols rows (g, stack, state) of
              Inl e \<Rightarrow> Inl e
            | Inr s' \<Rightarrow> carve_loop cols rows s'))"
  by pat_completeness auto
termination
proof (relation "measure (\<lambda>(cols, rows, g, stack, state). 2 * unvisited_count g + length stack)")
  show "wf (measure (\<lambda>(cols, rows, g, stack, state). 2 * unvisited_count g + length stack))"
    by simp
next
  fix cols rows :: int and g :: grid and stack :: "pos list" and state :: "32 word" and s'
  assume "stack \<noteq> []" and "carve_step cols rows (g, stack, state) = Inr s'"
  then show "((cols, rows, s'), (cols, rows, g, stack, state))
      \<in> measure (\<lambda>(cols, rows, g, stack, state). 2 * unvisited_count g + length stack)"
    using carve_step_decreases[of cols rows g stack state "fst s'" "fst (snd s')" "snd (snd s')"]
    by (simp add: case_prod_beta)
qed

subsection \<open>The parts of \<^verbatim>\<open>carveMaze\<close>\<close>

text \<open>
  Lines 119 to 123 of \<^verbatim>\<open>carveMaze\<close>: the fresh grid, the fresh generator, the stack holding
  \<^verbatim>\<open>{ x: 0, y: 0 }\<close>, and \<^verbatim>\<open>grid[0][0].visited = true\<close>, which throws on an empty grid.
\<close>

definition carve_init :: "int \<Rightarrow> int \<Rightarrow> real \<Rightarrow> error + carve_state" where
  "carve_init cols rows seed =
     andThen (set_cell (createGrid cols rows) (0, 0) (\<lambda>c. c\<lparr>visited := True\<rparr>)) (\<lambda>g.
     Inr (g, [(0, 0)], createSeededRandom seed))"

text \<open>The grid of \<^verbatim>\<open>carveMaze\<close> when the loop has ended, before the entry and the exit are opened.\<close>

definition carve_tree :: "int \<Rightarrow> int \<Rightarrow> real \<Rightarrow> error + grid" where
  "carve_tree cols rows seed =
     andThen (carve_init cols rows seed) (\<lambda>s.
     andThen (carve_loop cols rows s) (\<lambda>s'. Inr (fst s')))"

text \<open>
  An entry or exit object \<^verbatim>\<open>{ x, y, side }\<close>; a field that is \<^verbatim>\<open>null\<close> or absent is \<open>None\<close>.
\<close>

record point =
  pt_x :: "int option"
  pt_y :: "int option"
  pt_side :: "side option"

text \<open>
  \<^verbatim>\<open>const ent = entry || { x: 0, y: 0, side: "top" }\<close> and
  \<^verbatim>\<open>{ x: ent.x ?? 0, y: ent.y ?? 0, side: ent.side || "top" }\<close>: the resolved cell and side.
\<close>

definition entryFinal :: "point option \<Rightarrow> pos \<times> side" where
  "entryFinal entry =
     (let ent = (case entry of None \<Rightarrow> \<lparr>pt_x = Some 0, pt_y = Some 0, pt_side = Some Top\<rparr> | Some e \<Rightarrow> e)
      in ((case pt_x ent of None \<Rightarrow> 0 | Some v \<Rightarrow> v,
           case pt_y ent of None \<Rightarrow> 0 | Some v \<Rightarrow> v),
          case pt_side ent of None \<Rightarrow> Top | Some v \<Rightarrow> v))"

text \<open>
  \<^verbatim>\<open>const ex = exit || { x: cols - 1, y: rows - 1, side: "bottom" }\<close> and
  \<^verbatim>\<open>{ x: ex.x ?? cols - 1, y: ex.y ?? rows - 1, side: ex.side || "bottom" }\<close>.
\<close>

definition exitFinal :: "int \<Rightarrow> int \<Rightarrow> point option \<Rightarrow> pos \<times> side" where
  "exitFinal cols rows exit =
     (let ex = (case exit of
                  None \<Rightarrow> \<lparr>pt_x = Some (cols - 1), pt_y = Some (rows - 1), pt_side = Some Bottom\<rparr>
                | Some e \<Rightarrow> e)
      in ((case pt_x ex of None \<Rightarrow> cols - 1 | Some v \<Rightarrow> v,
           case pt_y ex of None \<Rightarrow> rows - 1 | Some v \<Rightarrow> v),
          case pt_side ex of None \<Rightarrow> Bottom | Some v \<Rightarrow> v))"

text \<open>\<^verbatim>\<open>grid[p.y][p.x].walls[p.side] = false\<close>\<close>

definition open_wall :: "grid \<Rightarrow> pos \<times> side \<Rightarrow> error + grid" where
  "open_wall g p = set_cell g (fst p) (\<lambda>c. c\<lparr>walls := clear_wall (snd p) (walls c)\<rparr>)"

text \<open>\<^verbatim>\<open>carveMaze({ cols, rows, seed, entry, exit })\<close>\<close>

definition carveMaze :: "int \<Rightarrow> int \<Rightarrow> real \<Rightarrow> point option \<Rightarrow> point option \<Rightarrow> error + grid" where
  "carveMaze cols rows seed entry exit =
     andThen (carve_tree cols rows seed) (\<lambda>g.
     andThen (open_wall g (entryFinal entry)) (\<lambda>g1.
     open_wall g1 (exitFinal cols rows exit)))"

section \<open>The widget controller\<close>

subsection \<open>Options and the object store\<close>

text \<open>
  The entry and exit of the options are references to point objects, which the caller may
  hold too. The store of point objects is a list; a reference is an index into it.
\<close>

type_synonym ref = nat

type_synonym store = "point list"

definition alloc :: "store \<Rightarrow> point \<Rightarrow> store \<times> ref" where
  "alloc h p = (h @ [p], length h)"

text \<open>
  Reading the object behind \<^verbatim>\<open>opts.entry\<close>: \<^verbatim>\<open>null\<close> or \<^verbatim>\<open>undefined\<close> is \<open>None\<close>.
\<close>

definition deref :: "store \<Rightarrow> ref option \<Rightarrow> point option" where
  "deref h r = (case r of None \<Rightarrow> None | Some a \<Rightarrow> if a < length h then Some (h ! a) else None)"

text \<open>\<^verbatim>\<open>obj.field = v\<close> on the object behind a reference.\<close>

definition store_update :: "store \<Rightarrow> ref \<Rightarrow> (point \<Rightarrow> point) \<Rightarrow> store" where
  "store_update h a f = (if a < length h then h[a := f (h ! a)] else h)"

text \<open>The configuration object \<^verbatim>\<open>opts\<close>.\<close>

record options =
  opt_cols :: int
  opt_rows :: int
  opt_wallColor :: string
  opt_bgColor :: string
  opt_lineWidthRatio :: real
  opt_seed :: real
  opt_entry :: "ref option"
  opt_exit :: "ref option"
  opt_squareBy :: string
  opt_padding :: int

text \<open>
  An options argument (\<^verbatim>\<open>options\<close>, \<^verbatim>\<open>newOptions\<close>, \<^verbatim>\<open>partial\<close>): every key may be absent
  (\<open>None\<close>).
\<close>

record partial_options =
  p_cols :: "int option"
  p_rows :: "int option"
  p_wallColor :: "string option"
  p_bgColor :: "string option"
  p_lineWidthRatio :: "real option"
  p_seed :: "real option"
  p_entry :: "ref option option"
  p_exit :: "ref option option"
  p_squareBy :: "string option"
  p_padding :: "int option"

text \<open>\<^verbatim>\<open>{}\<close>\<close>

definition no_options :: partial_options where
  "no_options = \<lparr>p_cols = None, p_rows = None, p_wallColor = None, p_bgColor = None,
     p_lineWidthRatio = None, p_seed = None, p_entry = None, p_exit = None,
     p_squareBy = None, p_padding = None\<rparr>"

text \<open>
  \<^verbatim>\<open>Object.assign(opts, partial)\<close> and \<^verbatim>\<open>{ ...defaults, ...options }\<close>: every key present in
  the second object replaces the value of the first; references are copied, not the objects
  behind them.
\<close>

definition assign :: "options \<Rightarrow> partial_options \<Rightarrow> options" where
  "assign opts partial =
     \<lparr>opt_cols = (case p_cols partial of None \<Rightarrow> opt_cols opts | Some v \<Rightarrow> v),
      opt_rows = (case p_rows partial of None \<Rightarrow> opt_rows opts | Some v \<Rightarrow> v),
      opt_wallColor = (case p_wallColor partial of None \<Rightarrow> opt_wallColor opts | Some v \<Rightarrow> v),
      opt_bgColor = (case p_bgColor partial of None \<Rightarrow> opt_bgColor opts | Some v \<Rightarrow> v),
      opt_lineWidthRatio =
        (case p_lineWidthRatio partial of None \<Rightarrow> opt_lineWidthRatio opts | Some v \<Rightarrow> v),
      opt_seed = (case p_seed partial of None \<Rightarrow> opt_seed opts | Some v \<Rightarrow> v),
      opt_entry = (case p_entry partial of None \<Rightarrow> opt_entry opts | Some v \<Rightarrow> v),
      opt_exit = (case p_exit partial of None \<Rightarrow> opt_exit opts | Some v \<Rightarrow> v),
      opt_squareBy = (case p_squareBy partial of None \<Rightarrow> opt_squareBy opts | Some v \<Rightarrow> v),
      opt_padding = (case p_padding partial of None \<Rightarrow> opt_padding opts | Some v \<Rightarrow> v)\<rparr>"

text \<open>
  \<^verbatim>\<open>defaults\<close>, given the references of its two freshly created point objects
  \<^verbatim>\<open>{ x: 0, y: 0, side: "top" }\<close> and \<^verbatim>\<open>{ x: null, y: null, side: "bottom" }\<close>.
\<close>

definition defaults :: "ref \<Rightarrow> ref \<Rightarrow> options" where
  "defaults e x =
     \<lparr>opt_cols = 5, opt_rows = 5, opt_wallColor = ''#ffffff'', opt_bgColor = ''#000000'',
      opt_lineWidthRatio = 0.25, opt_seed = 983811, opt_entry = Some e, opt_exit = Some x,
      opt_squareBy = ''width'', opt_padding = 0\<rparr>"

text \<open>
  \<^verbatim>\<open>carveMaze({ cols: opts.cols, rows: opts.rows, seed: opts.seed, entry: opts.entry,
  exit: opts.exit })\<close>
\<close>

definition carve_opts :: "store \<Rightarrow> options \<Rightarrow> error + grid" where
  "carve_opts h opts =
     carveMaze (opt_cols opts) (opt_rows opts) (opt_seed opts)
       (deref h (opt_entry opts)) (deref h (opt_exit opts))"

subsection \<open>Drawing\<close>

text \<open>The calls made on the canvas and its 2d context.\<close>

datatype canvas_op =
    SetSize int int
  | SetTransform int
  | ClearRect int int int int
  | FillStyle string
  | FillRect int int int int

text \<open>
  What the platform reports to \<^verbatim>\<open>draw\<close>: the bounding rectangle of the wrapper and
  \<^verbatim>\<open>window.devicePixelRatio\<close> (0 stands for a falsy value).
\<close>

record env =
  rect_width :: real
  rect_height :: real
  devicePixelRatio :: real

text \<open>\<^verbatim>\<open>measureSquare()\<close>\<close>

definition measureSquare :: "env \<Rightarrow> options \<Rightarrow> int" where
  "measureSquare e opts =
     (if opt_squareBy opts = ''min'' then \<lfloor>min (rect_width e) (rect_height e)\<rfloor>
      else \<lfloor>rect_width e\<rfloor>)"

text \<open>
  The \<^verbatim>\<open>fillRect\<close> calls of one cell, in the order of lines 224 to 229. Number arithmetic is
  real arithmetic followed by the rounding \<open>fl\<close> of the platform's floating point format, a
  parameter: the source computes \<open>fl (x * cell)\<close>; sums and differences of the small integers
  involved are exact.
\<close>

definition cell_rects ::
  "(real \<Rightarrow> real) \<Rightarrow> real \<Rightarrow> int \<Rightarrow> int \<Rightarrow> int \<Rightarrow> pos \<Rightarrow> walls \<Rightarrow> canvas_op list" where
  "cell_rects fl cell t cols rows p w =
     (let x = fst p; y = snd p;
          px = \<lfloor>fl (of_int x * cell)\<rfloor>;
          py = \<lfloor>fl (of_int y * cell)\<rfloor>;
          cellSize = \<lceil>cell\<rceil>
      in (if top_w w then [FillRect px py cellSize t] else []) @
         (if left_w w then [FillRect px py t cellSize] else []) @
         (if x = cols - 1 \<and> right_w w then [FillRect (px + cellSize - t) py t cellSize] else []) @
         (if y = rows - 1 \<and> bottom_w w then [FillRect px (py + cellSize - t) cellSize t] else []))"

text \<open>
  The two nested \<^verbatim>\<open>for\<close> loops visit \<open>(x, y)\<close> row by row; \<^verbatim>\<open>grid[y][x].walls\<close> throws when the
  grid has no such cell, and the calls already made stay made.
\<close>

definition cell_order :: "int \<Rightarrow> int \<Rightarrow> pos list" where
  "cell_order cols rows = concat (map (\<lambda>y. map (\<lambda>x. (x, y)) [0..cols - 1]) [0..rows - 1])"

fun draw_cells ::
  "(real \<Rightarrow> real) \<Rightarrow> real \<Rightarrow> int \<Rightarrow> int \<Rightarrow> int \<Rightarrow> grid \<Rightarrow> pos list \<Rightarrow> canvas_op list \<times> error option" where
  "draw_cells fl cell t cols rows g [] = ([], None)"
| "draw_cells fl cell t cols rows g (p # ps) =
     (case get_cell g p of
        Inl e \<Rightarrow> ([], Some e)
      | Inr c \<Rightarrow>
          (case draw_cells fl cell t cols rows g ps of
             (ops, r) \<Rightarrow> (cell_rects fl cell t cols rows p (walls c) @ ops, r)))"

text \<open>
  \<^verbatim>\<open>const cell = cssSize / cols\<close>. For \<open>cols = 0\<close> the source has an infinity or NaN here; no
  rectangle uses it, since the loops do not run then.
\<close>

definition cell_size :: "(real \<Rightarrow> real) \<Rightarrow> int \<Rightarrow> int \<Rightarrow> real" where
  "cell_size fl cssSize cols = fl (of_int cssSize / of_int cols)"

text \<open>\<^verbatim>\<open>const t = Math.max(1, Math.ceil(cell * opts.lineWidthRatio))\<close>\<close>

definition thickness :: "(real \<Rightarrow> real) \<Rightarrow> real \<Rightarrow> real \<Rightarrow> int" where
  "thickness fl cell ratio = max 1 \<lceil>fl (cell * ratio)\<rceil>"

text \<open>\<^verbatim>\<open>draw()\<close>: the canvas calls it makes, and the exception that ended it, if any.\<close>

definition draw :: "(real \<Rightarrow> real) \<Rightarrow> env \<Rightarrow> options \<Rightarrow> grid \<Rightarrow> canvas_op list \<times> error option" where
  "draw fl e opts g =
     (let cssSize = measureSquare e opts;
          dpr = max 1 \<lfloor>if devicePixelRatio e = 0 then 1 else devicePixelRatio e\<rfloor>;
          cols = opt_cols opts;
          rows = opt_rows opts;
          cell = cell_size fl cssSize cols;
          t = thickness fl cell (opt_lineWidthRatio opts)
      in (case draw_cells fl cell t cols rows g (cell_order cols rows) of
            (ops, r) \<Rightarrow>
              ([SetSize (cssSize * dpr) (cssSize * dpr), SetTransform dpr,
                ClearRect 0 0 cssSize cssSize, FillStyle (opt_bgColor opts),
                FillRect 0 0 cssSize cssSize, FillStyle (opt_wallColor opts)] @ ops, r)))"

subsection \<open>The public API\<close>

text \<open>
  The variables the closures of the API share, \<^verbatim>\<open>opts\<close> and \<^verbatim>\<open>grid\<close>, with the store of the
  point objects.
\<close>

record widget =
  w_store :: store
  w_opts :: options
  w_grid :: grid

text \<open>
  An API call returns the new state, the canvas calls made and the exception thrown, if any.
  The wrapper and canvas elements, the resize subscription (it calls \<^verbatim>\<open>draw\<close>) and
  \<^verbatim>\<open>destroy\<close> are left out: they write neither \<^verbatim>\<open>opts\<close> nor \<^verbatim>\<open>grid\<close>.
\<close>

type_synonym outcome = "widget \<times> canvas_op list \<times> error option"

definition regenerate :: "(real \<Rightarrow> real) \<Rightarrow> env \<Rightarrow> partial_options \<Rightarrow> widget \<Rightarrow> outcome" where
  "regenerate fl e newOptions w =
     (let opts = assign (w_opts w) newOptions in
      case carve_opts (w_store w) opts of
        Inl err \<Rightarrow> (w\<lparr>w_opts := opts\<rparr>, [], Some err)
      | Inr g \<Rightarrow> (w\<lparr>w_opts := opts, w_grid := g\<rparr>, draw fl e opts g))"

definition redraw :: "(real \<Rightarrow> real) \<Rightarrow> env \<Rightarrow> widget \<Rightarrow> outcome" where
  "redraw fl e w = (w, draw fl e (w_opts w) (w_grid w))"

definition setOptions :: "(real \<Rightarrow> real) \<Rightarrow> env \<Rightarrow> partial_options \<Rightarrow> widget \<Rightarrow> outcome" where
  "setOptions fl e partial w =
     (let opts = assign (w_opts w) partial in (w\<lparr>w_opts := opts\<rparr>, draw fl e opts (w_grid w)))"

text \<open>
  \<^verbatim>\<open>createMazeWidget(mount, options)\<close> up to the first rendering: the two default point
  objects are created, the options merged, the mount element looked up (\<open>mount_found\<close>), the
  maze carved and drawn.
\<close>

datatype failure = MountNotFound | Thrown error

definition createMazeWidget ::
  "(real \<Rightarrow> real) \<Rightarrow> env \<Rightarrow> bool \<Rightarrow> partial_options \<Rightarrow> store \<Rightarrow> failure + widget \<times> canvas_op list" where
  "createMazeWidget fl e mount_found options h =
     (case alloc h \<lparr>pt_x = Some 0, pt_y = Some 0, pt_side = Some Top\<rparr> of (h1, entry) \<Rightarrow>
      case alloc h1 \<lparr>pt_x = None, pt_y = None, pt_side = Some Bottom\<rparr> of (h2, exit) \<Rightarrow>
        let opts = assign (defaults entry exit) options in
        if \<not> mount_found then Inl MountNotFound
        else (case carve_opts h2 opts of
                Inl err \<Rightarrow> Inl (Thrown err)
              | Inr g \<Rightarrow>
                  (case draw fl e opts g of
                     (ops, Some err) \<Rightarrow> Inl (Thrown err)
                   | (ops, None) \<Rightarrow> Inr (\<lparr>w_store = h2, w_opts = opts, w_grid = g\<rparr>, ops))))"

text \<open>
  \<^verbatim>\<open>getState()\<close>: \<^verbatim>\<open>{ options: { ...opts }, grid: JSON.parse(JSON.stringify(grid)) }\<close> (the
  canvas and mount handles are left out). The spread makes a new options object with the
  same field values, so with the same references to the entry and exit objects; the JSON
  round trip makes new cell objects with the same flags.
\<close>

record snapshot =
  s_options :: options
  s_grid :: grid

definition getState :: "widget \<Rightarrow> snapshot" where
  "getState w = \<lparr>s_options = w_opts w, s_grid = w_grid w\<rparr>"

text \<open>
  What a caller can do to a snapshot: assign keys of its options object, change its grid in
  any way, or assign fields of the point objects its options refer to (which throws, and
  changes nothing, when the reference is \<^verbatim>\<open>null\<close>). Only the last writes to the store.
\<close>

datatype mutation =
    AssignOptions partial_options
  | ChangeGrid "grid \<Rightarrow> grid"
  | AssignEntryFields "point \<Rightarrow> point"
  | AssignExitFields "point \<Rightarrow> point"

fun mutate :: "mutation \<Rightarrow> store \<times> snapshot \<Rightarrow> store \<times> snapshot" where
  "mutate (AssignOptions partial) (h, s) = (h, s\<lparr>s_options := assign (s_options s) partial\<rparr>)"
| "mutate (ChangeGrid f) (h, s) = (h, s\<lparr>s_grid := f (s_grid s)\<rparr>)"
| "mutate (AssignEntryFields f) (h, s) =
     (case opt_entry (s_options s) of None \<Rightarrow> (h, s) | Some a \<Rightarrow> (store_update h a f, s))"
| "mutate (AssignExitFields f) (h, s) =
     (case opt_exit (s_options s) of None \<Rightarrow> (h, s) | Some a \<Rightarrow> (store_update h a f, s))"

text \<open>The widget after the caller has mutated a snapshot it got from \<^verbatim>\<open>getState()\<close>.\<close>

definition after_mutation :: "mutation \<Rightarrow> widget \<Rightarrow> widget" where
  "after_mutation m w = w\<lparr>w_store := fst (mutate m (w_store w, getState w))\<rparr>"

section \<open>The seeded random generator is a linear congruential generator\<close>

lemma unat_to_uint32: "unat (to_uint32 x) = nat (trunc x mod 2 ^ 32)"
  by (simp add: to_uint32_def unat_eq_nat_uint uint_word_of_int take_bit_eq_mod)

lemma trunc_of_int: "trunc (real_of_int n) = n"
  by (simp add: trunc_def)

lemma unat_rnd_state: "unat (fst (rnd s)) = (unat s * 1664525 + 1013904223) mod 2 ^ 32"
proof -
  have "real_of_int (uint s) * 1664525 + 1013904223
      = real_of_int (uint s * 1664525 + 1013904223)"
    by simp
  then have "trunc (real_of_int (uint s) * 1664525 + 1013904223) = uint s * 1664525 + 1013904223"
    by (simp only: trunc_of_int)
  moreover have "nat ((uint s * 1664525 + 1013904223) mod 2 ^ 32)
      = (unat s * 1664525 + 1013904223) mod 2 ^ 32"
    by (simp add: nat_mod_distrib nat_add_distrib nat_mult_distrib)
  ultimately show ?thesis by (simp add: rnd_def Let_def unat_to_uint32)
qed

lemma rnd_value: "snd (rnd s) = real (unat (fst (rnd s))) / 2 ^ 32"
  by (simp add: rnd_def Let_def)

lemma unat_word32_less: "unat (w :: 32 word) < 4294967296"
proof -
  have "unat w < 2 ^ LENGTH(32)" by (rule unsigned_less)
  then show ?thesis by simp
qed

lemma rnd_value_range: "0 \<le> snd (rnd s) \<and> snd (rnd s) < 1"
proof -
  have "real (unat (fst (rnd s))) < real 4294967296"
    using unat_word32_less[of "fst (rnd s)"] by (simp only: of_nat_less_iff)
  moreover have "0 \<le> real (unat (fst (rnd s)))"
    by (rule of_nat_0_le_iff)
  ultimately show ?thesis unfolding rnd_value by simp
qed

lemma rnd_arithmetic_exact: "unat (s :: 32 word) * 1664525 + 1013904223 < (2::nat) ^ 53"
  using unat_word32_less[of s] by simp

lemma rnd_output_unfold:
  "rnd_output k s = real (((\<lambda>n. (n * 1664525 + 1013904223) mod 2 ^ 32) ^^ Suc k) (unat s)) / 2 ^ 32"
proof (induction k arbitrary: s)
  case 0
  then show ?case by (simp add: rnd_value unat_rnd_state)
next
  case (Suc k)
  have "rnd_output (Suc k) s = rnd_output k (fst (rnd s))" by simp
  also have "\<dots> = real (((\<lambda>n. (n * 1664525 + 1013904223) mod 2 ^ 32) ^^ Suc k)
      ((unat s * 1664525 + 1013904223) mod 2 ^ 32)) / 2 ^ 32"
    by (simp only: Suc.IH unat_rnd_state)
  finally show ?case by (simp only: funpow_Suc_right o_apply)
qed

lemma rnd_output_rational: "rnd_output k s \<in> \<rat>"
  unfolding rnd_output_unfold by (intro Rats_divide Rats_of_nat Rats_power Rats_number_of)

text \<open>
  C3. The state of a fresh generator is the seed, its fraction dropped, modulo \<open>2^32\<close>. A call replaces the state
  by \<open>(state * 1664525 + 1013904223) mod 2^32\<close>, where the product and the sum stay below
  \<open>2^53\<close> (so the Number arithmetic of the source is exact), and returns the new state
  divided by \<open>2^32\<close>, a value in \<open>[0, 1)\<close>. The output of call number \<open>k\<close> (counted from 0) is
  therefore the \<open>k+1\<close>-fold iterate of the recurrence on the truncated seed, over \<open>2^32\<close>,
  a rational number.
\<close>

theorem seeded_random_is_lcg:
  "unat (createSeededRandom seed) = nat (trunc seed mod 2 ^ 32)
   \<and> unat (fst (rnd s)) = (unat s * 1664525 + 1013904223) mod 2 ^ 32
   \<and> unat s * 1664525 + 1013904223 < 2 ^ 53
   \<and> snd (rnd s) = real (unat (fst (rnd s))) / 2 ^ 32
   \<and> 0 \<le> snd (rnd s) \<and> snd (rnd s) < 1
   \<and> rnd_output k (createSeededRandom seed)
       = real (((\<lambda>n. (n * 1664525 + 1013904223) mod 2 ^ 32) ^^ Suc k) (nat (trunc seed mod 2 ^ 32))) / 2 ^ 32
   \<and> rnd_output k (createSeededRandom seed) \<in> \<rat>"
  using unat_rnd_state[of s] rnd_value[of s] rnd_value_range[of s] rnd_arithmetic_exact[of s]
    rnd_output_unfold[of k "createSeededRandom seed"] unat_to_uint32[of seed]
    rnd_output_rational[of k "createSeededRandom seed"]
  by (simp only: createSeededRandom_def simp_thms)

theorem seeded_random_is_lcg_witness:
  "rnd_output 0 (createSeededRandom 983811) = 2209369222 / 4294967296
   \<and> unat (createSeededRandom (- 1 / 2)) = 0"
  using seeded_random_is_lcg[of 983811 0 0] seeded_random_is_lcg[of "- 1 / 2" 0 0]
  by (simp add: trunc_def)

section \<open>The carving loop on a well-formed grid\<close>

text \<open>
  The vocabulary of the properties: the cells of a \<open>rows \<times> cols\<close> grid, the cell object at
  a coordinate, its flags, the shape of the grid, and the coordinate a direction leads to.
\<close>

definition in_grid :: "int \<Rightarrow> int \<Rightarrow> pos \<Rightarrow> bool" where
  "in_grid cols rows p = (0 \<le> fst p \<and> fst p < cols \<and> 0 \<le> snd p \<and> snd p < rows)"

definition cell_of :: "grid \<Rightarrow> pos \<Rightarrow> cell" where
  "cell_of g p = g ! nat (snd p) ! nat (fst p)"

definition is_visited :: "grid \<Rightarrow> pos \<Rightarrow> bool" where
  "is_visited g p = visited (cell_of g p)"

definition wall_at :: "grid \<Rightarrow> pos \<Rightarrow> side \<Rightarrow> bool" where
  "wall_at g p s = get_wall s (walls (cell_of g p))"

definition has_shape :: "int \<Rightarrow> int \<Rightarrow> grid \<Rightarrow> bool" where
  "has_shape cols rows g = (length g = nat rows \<and> (\<forall>row \<in> set g. length row = nat cols))"

definition step_to :: "pos \<Rightarrow> dir \<Rightarrow> pos" where
  "step_to p d = (fst p + dx d, snd p + dy d)"

lemma get_wall_clear_wall [simp]: "get_wall s (clear_wall s' w) = (get_wall s w \<and> s \<noteq> s')"
  by (cases s; cases s') auto

lemma get_cell_shape:
  assumes "has_shape cols rows g" and "in_grid cols rows p"
  shows "get_cell g p = Inr (cell_of g p)"
proof -
  obtain x y where p: "p = (x, y)" by (cases p)
  have "0 \<le> y" "nat y < length g" "0 \<le> x"
    using assms by (auto simp: has_shape_def in_grid_def p)
  moreover from this have "g ! nat y \<in> set g" by simp
  then have "nat x < length (g ! nat y)"
    using assms by (auto simp: has_shape_def in_grid_def p)
  ultimately show ?thesis by (simp add: get_cell_in p cell_of_def)
qed

lemma get_cell_cell_of: "get_cell g p = Inr c \<Longrightarrow> c = cell_of g p"
  by (drule get_cell_InrD) (simp add: cell_of_def)

lemma set_cell_shape:
  assumes "set_cell g p f = Inr g'" and "has_shape cols rows g"
  shows "has_shape cols rows g'"
proof -
  from set_cell_InrD[OF assms(1)] obtain c where c: "get_cell g p = Inr c" by auto
  have g': "g' = g[nat (snd p) := (g ! nat (snd p))[nat (fst p) := f c]]"
    using assms(1) c by (simp add: set_cell_def)
  have "nat (snd p) < length g" using get_cell_InrD[OF c] by simp
  then have "g ! nat (snd p) \<in> set g" by simp
  then have "length ((g ! nat (snd p))[nat (fst p) := f c]) = nat cols"
    using assms(2) by (simp add: has_shape_def)
  then show ?thesis using assms(2) unfolding g' has_shape_def
    by (auto dest!: set_update_subset_insert[THEN subsetD])
qed

lemma set_cell_total:
  assumes "has_shape cols rows g" and "in_grid cols rows p"
  shows "\<exists>g'. set_cell g p f = Inr g'"
  using get_cell_shape[OF assms] by (simp add: set_cell_def)

lemma cell_of_set_cell:
  assumes "set_cell g p f = Inr g'" and "has_shape cols rows g" and "in_grid cols rows q"
  shows "cell_of g' q = (if q = p then f (cell_of g q) else cell_of g q)"
proof -
  have "get_cell g' q = Inr (cell_of g' q)"
    using get_cell_shape[OF set_cell_shape[OF assms(1,2)] assms(3)] .
  moreover have "get_cell g' q = Inr (if q = p then f (cell_of g q) else cell_of g q)"
    using get_cell_set_cell[OF assms(1), of q] get_cell_shape[OF assms(2,3)] by simp
  ultimately show ?thesis by simp
qed

lemma filter_err_total:
  "(\<forall>a \<in> set xs. p a = Inr (q a)) \<Longrightarrow> filter_err p xs = Inr (filter q xs)"
  by (induction xs) auto

lemma neighborsUnvisited_shape:
  assumes "has_shape cols rows g"
  shows "neighborsUnvisited cols rows g x y
    = Inr (filter (\<lambda>n. in_grid cols rows (nx n, ny n) \<and> \<not> is_visited g (nx n, ny n))
        (map (with_target x y) dirs))"
  unfolding neighborsUnvisited_def
proof (rule filter_err_total, rule ballI)
  fix n
  show "in_bounds_unvisited cols rows g n
     = Inr (in_grid cols rows (nx n, ny n) \<and> \<not> is_visited g (nx n, ny n))"
  proof (cases "in_grid cols rows (nx n, ny n)")
    case True
    then show ?thesis using get_cell_shape[OF assms True]
      by (simp add: in_bounds_unvisited_def in_grid_def is_visited_def)
  next
    case False
    then show ?thesis by (auto simp: in_bounds_unvisited_def in_grid_def)
  qed
qed

lemma floor_index_in_range:
  assumes "0 \<le> r" and "r < 1" and "0 < n"
  shows "0 \<le> \<lfloor>r * real n\<rfloor> \<and> \<lfloor>r * real n\<rfloor> < int n"
proof -
  have "0 \<le> r * real n" using assms by simp
  moreover have "r * real n < real n" using assms by simp
  ultimately show ?thesis by (simp add: floor_less_iff)
qed

lemma step_to_ne: "d \<in> set dirs \<Longrightarrow> step_to p d \<noteq> p"
  by (cases p) (auto simp: dirs_def step_to_def)

lemma carve_step_cases:
  assumes shape: "has_shape cols rows g" and cur: "in_grid cols rows cur"
  obtains
    (pop) "carve_step cols rows (g, cur # rest, st) = Inr (g, rest, st)"
      and "\<forall>d \<in> set dirs. in_grid cols rows (step_to cur d) \<longrightarrow> is_visited g (step_to cur d)"
  | (push) d g' where "d \<in> set dirs" and "in_grid cols rows (step_to cur d)"
      and "\<not> is_visited g (step_to cur d)"
      and "carve_step cols rows (g, cur # rest, st)
             = Inr (g', step_to cur d # cur # rest, fst (rnd st))"
      and "has_shape cols rows g'"
      and "\<forall>q. in_grid cols rows q \<longrightarrow>
             is_visited g' q = (q = step_to cur d \<or> is_visited g q)"
      and "\<forall>q s. in_grid cols rows q \<longrightarrow>
             wall_at g' q s = (wall_at g q s \<and> \<not> (q = cur \<and> s = wall d)
                                \<and> \<not> (q = step_to cur d \<and> s = opp d))"
proof -
  define unv where "unv = filter (\<lambda>n. in_grid cols rows (nx n, ny n) \<and> \<not> is_visited g (nx n, ny n))
        (map (with_target (fst cur) (snd cur)) dirs)"
  have unv: "neighborsUnvisited cols rows g (fst cur) (snd cur) = Inr unv"
    unfolding unv_def by (rule neighborsUnvisited_shape[OF shape])
  have mem: "n \<in> set unv \<longleftrightarrow> (\<exists>d \<in> set dirs. n = with_target (fst cur) (snd cur) d
      \<and> in_grid cols rows (nx n, ny n) \<and> \<not> is_visited g (nx n, ny n))" for n
    unfolding unv_def by auto
  show ?thesis
  proof (cases "unv = []")
    case True
    have 1: "carve_step cols rows (g, cur # rest, st) = Inr (g, rest, st)"
      using True by (simp add: carve_step_def andThen_def unv)
    have 2: "\<forall>d \<in> set dirs. in_grid cols rows (step_to cur d) \<longrightarrow> is_visited g (step_to cur d)"
    proof (intro ballI impI)
      fix d assume d: "d \<in> set dirs" and "in_grid cols rows (step_to cur d)"
      show "is_visited g (step_to cur d)"
      proof (rule ccontr)
        assume "\<not> is_visited g (step_to cur d)"
        then have "with_target (fst cur) (snd cur) d \<in> set unv"
          using d \<open>in_grid cols rows (step_to cur d)\<close>
          unfolding mem by (auto simp: with_target_def step_to_def)
        then show False using True by simp
      qed
    qed
    from 1 2 show ?thesis by (rule pop)
  next
    case False
    obtain st1 r where r: "rnd st = (st1, r)" by (cases "rnd st")
    have st1: "st1 = fst (rnd st)" and r01: "0 \<le> r" "r < 1"
      using rnd_value_range[of st] by (simp_all add: r)
    define i where "i = \<lfloor>r * real (length unv)\<rfloor>"
    have i: "0 \<le> i \<and> i < int (length unv)"
      unfolding i_def using floor_index_in_range[OF r01, of "length unv"] False by simp
    define n where "n = unv ! nat i"
    have nth: "nth_err unv \<lfloor>r * real (length unv)\<rfloor> = Inr n"
      using i by (simp add: nth_err_def n_def i_def)
    have "n \<in> set unv" unfolding n_def using i by (intro nth_mem) linarith
    then obtain d where d: "d \<in> set dirs" and n: "n = with_target (fst cur) (snd cur) d"
      and ng: "in_grid cols rows (nx n, ny n)" and nv: "\<not> is_visited g (nx n, ny n)"
      unfolding mem by auto
    have nxy: "(nx n, ny n) = step_to cur d" and nw: "wall n = wall d" and no: "opp n = opp d"
      by (simp_all add: n with_target_def step_to_def)
    let ?next = "step_to cur d"
    have nxt: "in_grid cols rows ?next" "\<not> is_visited g ?next" using ng nv nxy by simp_all
    have ne: "?next \<noteq> cur" using step_to_ne[OF d] .
    obtain g1 where g1: "set_cell g cur (\<lambda>c. c\<lparr>walls := clear_wall (wall d) (walls c)\<rparr>) = Inr g1"
      using set_cell_total[OF shape cur] by blast
    have s1: "has_shape cols rows g1" using set_cell_shape[OF g1 shape] .
    obtain g2 where g2: "set_cell g1 ?next (\<lambda>c. c\<lparr>walls := clear_wall (opp d) (walls c)\<rparr>) = Inr g2"
      using set_cell_total[OF s1 nxt(1)] by blast
    have s2: "has_shape cols rows g2" using set_cell_shape[OF g2 s1] .
    obtain g3 where g3: "set_cell g2 ?next (\<lambda>c. c\<lparr>visited := True\<rparr>) = Inr g3"
      using set_cell_total[OF s2 nxt(1)] by blast
    have s3: "has_shape cols rows g3" using set_cell_shape[OF g3 s2] .
    have step: "carve_step cols rows (g, cur # rest, st)
        = Inr (g3, ?next # cur # rest, fst (rnd st))"
      using False
      by (simp add: carve_step_def andThen_def unv r nth g1 g2 g3 nxy nw no st1[symmetric])
    have cells: "cell_of g3 q =
        (if q = ?next then (cell_of g q)\<lparr>walls := clear_wall (opp d) (walls (cell_of g q)), visited := True\<rparr>
         else if q = cur then (cell_of g q)\<lparr>walls := clear_wall (wall d) (walls (cell_of g q))\<rparr>
         else cell_of g q)" if "in_grid cols rows q" for q
      using cell_of_set_cell[OF g3 s2 that] cell_of_set_cell[OF g2 s1 that]
        cell_of_set_cell[OF g1 shape that] ne
      by auto
    have vis: "\<forall>q. in_grid cols rows q \<longrightarrow> is_visited g3 q = (q = ?next \<or> is_visited g q)"
      using cells by (simp add: is_visited_def)
    have wal: "\<forall>q s. in_grid cols rows q \<longrightarrow>
             wall_at g3 q s = (wall_at g q s \<and> \<not> (q = cur \<and> s = wall d)
                                \<and> \<not> (q = ?next \<and> s = opp d))"
      using cells ne by (auto simp: wall_at_def)
    from d nxt step s3 vis wal show ?thesis by (rule push)
  qed
qed


subsection \<open>Graphs: cycles, leaves\<close>

definition cycle :: "('v \<Rightarrow> 'v \<Rightarrow> bool) \<Rightarrow> 'v list \<Rightarrow> bool" where
  "cycle adj p = (3 \<le> length p \<and> distinct p \<and>
     (\<forall>i < length p. adj (p ! i) (p ! (Suc i mod length p))))"

definition edges :: "('v \<Rightarrow> 'v \<Rightarrow> bool) \<Rightarrow> 'v set set" where
  "edges adj = {{a, b} | a b. adj a b}"

lemma cycle_avoids_leaf:
  assumes new: "\<And>a b. adj' a b \<longleftrightarrow> adj a b \<or> (a = c \<and> b = v) \<or> (a = v \<and> b = c)"
    and iso: "\<And>a. \<not> adj v a" "\<And>a. \<not> adj a v"
    and cv: "c \<noteq> v"
    and cyc: "cycle adj' p"
  shows "v \<notin> set p"
proof
  assume "v \<in> set p"
  then obtain i where i: "i < length p" and pi: "p ! i = v"
    by (auto simp: in_set_conv_nth)
  let ?n = "length p"
  have n: "3 \<le> ?n" and dist: "distinct p"
    and adj: "\<And>k. k < ?n \<Longrightarrow> adj' (p ! k) (p ! (Suc k mod ?n))"
    using cyc by (auto simp: cycle_def)
  define j where "j = (if i = 0 then ?n - 1 else i - 1)"
  have j: "j < ?n" and sj: "Suc j mod ?n = i" using i n by (auto simp: j_def)
  have "0 < ?n" using n by linarith
  then have si: "Suc i mod ?n < ?n" by (rule mod_less_divisor)
  have "adj' v (p ! (Suc i mod ?n))" using adj[OF i] pi by simp
  then have 1: "p ! (Suc i mod ?n) = c" using new iso cv by auto
  have "adj' (p ! j) v" using adj[OF j] sj pi by simp
  then have 2: "p ! j = c" using new iso cv by auto
  have "Suc i mod ?n = j"
    using nth_eq_iff_index_eq[OF dist si j] 1 2 by simp
  moreover have "Suc i mod ?n \<noteq> j"
  proof (cases "Suc i = ?n")
    case True
    then show ?thesis using n by (auto simp: j_def)
  next
    case False
    then have "Suc i mod ?n = Suc i" using i by simp
    then show ?thesis using n by (auto simp: j_def)
  qed
  ultimately show False by simp
qed

lemma cycle_leaf:
  assumes new: "\<And>a b. adj' a b \<longleftrightarrow> adj a b \<or> (a = c \<and> b = v) \<or> (a = v \<and> b = c)"
    and iso: "\<And>a. \<not> adj v a" "\<And>a. \<not> adj a v"
    and cv: "c \<noteq> v"
    and cyc: "cycle adj' p"
  shows "cycle adj p"
proof -
  have v: "v \<notin> set p" using cycle_avoids_leaf[OF new iso cv cyc] .
  have "adj (p ! i) (p ! (Suc i mod length p))" if "i < length p" for i
  proof -
    have n: "3 \<le> length p" using cyc by (simp add: cycle_def)
    then have "0 < length p" by linarith
    then have "Suc i mod length p < length p" by (rule mod_less_divisor)
    then have "p ! i \<noteq> v" "p ! (Suc i mod length p) \<noteq> v"
      using v that nth_mem by metis+
    moreover have "adj' (p ! i) (p ! (Suc i mod length p))"
      using cyc that by (simp add: cycle_def)
    ultimately show ?thesis using new by auto
  qed
  then show ?thesis using cyc by (simp add: cycle_def)
qed

lemma edges_leaf:
  assumes new: "\<And>a b. adj' a b \<longleftrightarrow> adj a b \<or> (a = c \<and> b = v) \<or> (a = v \<and> b = c)"
    and iso: "\<And>a. \<not> adj v a" "\<And>a. \<not> adj a v"
  shows "edges adj' = insert {c, v} (edges adj)" and "{c, v} \<notin> edges adj"
proof -
  show "edges adj' = insert {c, v} (edges adj)"
    unfolding edges_def using new by (auto simp: insert_commute)
  show "{c, v} \<notin> edges adj"
  proof
    assume "{c, v} \<in> edges adj"
    then obtain a b where ab: "{c, v} = {a, b}" "adj a b" by (auto simp: edges_def)
    then have "a = v \<or> b = v" by (auto simp: doubleton_eq_iff)
    then show False using ab(2) iso by auto
  qed
qed

lemma reach_leaf:
  assumes new: "\<And>a b. adj' a b \<longleftrightarrow> adj a b \<or> (a = c \<and> b = v) \<or> (a = v \<and> b = c)"
  shows "adj\<^sup>*\<^sup>* r a \<Longrightarrow> adj'\<^sup>*\<^sup>* r a" and "adj\<^sup>*\<^sup>* r c \<Longrightarrow> adj'\<^sup>*\<^sup>* r v"
proof -
  have mono: "adj\<^sup>*\<^sup>* r a \<Longrightarrow> adj'\<^sup>*\<^sup>* r a" for a
    by (erule rtranclp_mono[THEN predicate2D, rotated]) (auto simp: new)
  show "adj\<^sup>*\<^sup>* r a \<Longrightarrow> adj'\<^sup>*\<^sup>* r a" by (rule mono)
  assume "adj\<^sup>*\<^sup>* r c"
  then have "adj'\<^sup>*\<^sup>* r c" by (rule mono)
  moreover have "adj' c v" by (simp add: new)
  ultimately show "adj'\<^sup>*\<^sup>* r v" by (rule rtranclp.rtrancl_into_rtrancl)
qed

subsection \<open>The open adjacencies of a grid\<close>

definition open_adj :: "int \<Rightarrow> int \<Rightarrow> grid \<Rightarrow> pos \<Rightarrow> pos \<Rightarrow> bool" where
  "open_adj cols rows g a b =
     (in_grid cols rows a \<and> in_grid cols rows b \<and>
      (\<exists>d \<in> set dirs. b = step_to a d \<and> \<not> wall_at g a (wall d) \<and> \<not> wall_at g b (opp d)))"

definition open_adjacencies :: "int \<Rightarrow> int \<Rightarrow> grid \<Rightarrow> pos set set" where
  "open_adjacencies cols rows g = edges (open_adj cols rows g)"

lemma dirs_wall_inj: "d \<in> set dirs \<Longrightarrow> d' \<in> set dirs \<Longrightarrow> wall d = wall d' \<Longrightarrow> d = d'"
  by (auto simp: dirs_def)

lemma dirs_opp_inj: "d \<in> set dirs \<Longrightarrow> d' \<in> set dirs \<Longrightarrow> opp d = opp d' \<Longrightarrow> d = d'"
  by (auto simp: dirs_def)

lemma dirs_wall_opp:
  "d \<in> set dirs \<Longrightarrow> d' \<in> set dirs \<Longrightarrow> wall d = opp d' \<Longrightarrow>
     opp d = wall d' \<and> step_to (step_to p d') d = p \<and> step_to (step_to p d) d' = p"
  by (cases p) (auto simp: dirs_def step_to_def)

lemma dirs_reverse:
  "d \<in> set dirs \<Longrightarrow> \<exists>d' \<in> set dirs. wall d' = opp d \<and> opp d' = wall d"
  by (auto simp: dirs_def)

lemma step_to_inj: "step_to a d = step_to b d \<Longrightarrow> a = b"
  by (cases a; cases b) (simp add: step_to_def)

lemma open_adj_sym: "open_adj cols rows g a b \<Longrightarrow> open_adj cols rows g b a"
proof -
  assume "open_adj cols rows g a b"
  then obtain d where ab: "in_grid cols rows a" "in_grid cols rows b" and d: "d \<in> set dirs"
    and b: "b = step_to a d" and w: "\<not> wall_at g a (wall d)" "\<not> wall_at g b (opp d)"
    by (auto simp: open_adj_def)
  from dirs_reverse[OF d] obtain d' where d': "d' \<in> set dirs" "wall d' = opp d" "opp d' = wall d"
    by auto
  have "a = step_to b d'" using dirs_wall_opp[OF d' (1) d d'(2), of a] b by simp
  then show ?thesis using ab d' w by (auto simp: open_adj_def)
qed

text \<open>The effect of a push on the open adjacencies: exactly one new adjacency.\<close>

lemma open_adj_push:
  assumes d0: "d0 \<in> set dirs" and cur: "in_grid cols rows cur"
    and nxt: "in_grid cols rows (step_to cur d0)"
    and wal: "\<forall>q s. in_grid cols rows q \<longrightarrow>
             wall_at g' q s = (wall_at g q s \<and> \<not> (q = cur \<and> s = wall d0)
                                \<and> \<not> (q = step_to cur d0 \<and> s = opp d0))"
  shows "open_adj cols rows g' a b \<longleftrightarrow>
     open_adj cols rows g a b \<or> (a = cur \<and> b = step_to cur d0) \<or> (a = step_to cur d0 \<and> b = cur)"
proof
  assume "open_adj cols rows g' a b"
  then obtain d where ab: "in_grid cols rows a" "in_grid cols rows b" and d: "d \<in> set dirs"
    and b: "b = step_to a d" and w: "\<not> wall_at g' a (wall d)" "\<not> wall_at g' b (opp d)"
    by (auto simp: open_adj_def)
  from w(1) ab(1) wal consider
      (old) "\<not> wall_at g a (wall d)"
    | (c) "a = cur" "wall d = wall d0"
    | (n) "a = step_to cur d0" "wall d = opp d0"
    by blast
  then show "open_adj cols rows g a b \<or> (a = cur \<and> b = step_to cur d0) \<or> (a = step_to cur d0 \<and> b = cur)"
  proof cases
    case c
    then have "d = d0" using dirs_wall_inj[OF d d0] by simp
    then show ?thesis using c b by simp
  next
    case n
    then have "b = cur" using dirs_wall_opp[OF d d0 n(2), of cur] b by simp
    then show ?thesis using n by simp
  next
    case old
    from w(2) ab(2) wal consider
        (old') "\<not> wall_at g b (opp d)"
      | (c') "b = cur" "opp d = wall d0"
      | (n') "b = step_to cur d0" "opp d = opp d0"
      by blast
    then show ?thesis
    proof cases
      case old'
      then show ?thesis using ab d b old by (auto simp: open_adj_def)
    next
      case c'
      have "step_to (step_to a d) d0 = a"
        using dirs_wall_opp[OF d0 d c'(2)[symmetric], of a] by simp
      then show ?thesis using c' b by simp
    next
      case n'
      then have "d = d0" using dirs_opp_inj[OF d d0] by simp
      then have "a = cur" using n' b step_to_inj by blast
      then show ?thesis using n' by simp
    qed
  qed
next
  assume "open_adj cols rows g a b \<or> (a = cur \<and> b = step_to cur d0) \<or> (a = step_to cur d0 \<and> b = cur)"
  then consider (old) "open_adj cols rows g a b"
    | (new) "a = cur" "b = step_to cur d0" | (rev) "a = step_to cur d0" "b = cur"
    by blast
  then show "open_adj cols rows g' a b"
  proof cases
    case old
    then obtain d where ab: "in_grid cols rows a" "in_grid cols rows b" and d: "d \<in> set dirs"
      and b: "b = step_to a d" and w: "\<not> wall_at g a (wall d)" "\<not> wall_at g b (opp d)"
      by (auto simp: open_adj_def)
    have "\<not> wall_at g' a (wall d)" "\<not> wall_at g' b (opp d)"
      using wal ab w by blast+
    then show ?thesis unfolding open_adj_def using ab d b by blast
  next
    case new
    have "\<not> wall_at g' cur (wall d0)" "\<not> wall_at g' (step_to cur d0) (opp d0)"
      using wal cur nxt by blast+
    then show ?thesis using new cur nxt d0 by (auto simp: open_adj_def)
  next
    case rev
    have "\<not> wall_at g' cur (wall d0)" "\<not> wall_at g' (step_to cur d0) (opp d0)"
      using wal cur nxt by blast+
    then have "open_adj cols rows g' cur (step_to cur d0)"
      using cur nxt d0 by (auto simp: open_adj_def)
    then show ?thesis using rev open_adj_sym by simp
  qed
qed

lemma open_adj_closed_cell:
  assumes "\<forall>s. wall_at g v s"
  shows "\<not> open_adj cols rows g v a" and "\<not> open_adj cols rows g a v"
  using assms by (auto simp: open_adj_def)

lemma finite_in_grid: "finite {p. in_grid cols rows p}"
proof -
  have "{p. in_grid cols rows p} \<subseteq> {0..<cols} \<times> {0..<rows}"
    by (auto simp: in_grid_def)
  then show ?thesis by (rule finite_subset) simp
qed

lemma card_in_grid: "card {p. in_grid cols rows p} = nat cols * nat rows"
proof -
  have "{p. in_grid cols rows p} = {0..<cols} \<times> {0..<rows}"
    by (auto simp: in_grid_def)
  then show ?thesis by (simp add: card_cartesian_product)
qed

lemma finite_open_adjacencies: "finite (open_adjacencies cols rows g)"
proof -
  have "open_adjacencies cols rows g
      \<subseteq> (\<lambda>(a, b). {a, b}) ` ({p. in_grid cols rows p} \<times> {p. in_grid cols rows p})"
    by (auto simp: open_adjacencies_def edges_def open_adj_def)
  then show ?thesis by (rule finite_subset) (simp add: finite_in_grid)
qed

subsection \<open>The invariant of the carving loop\<close>

definition visited_cells :: "int \<Rightarrow> int \<Rightarrow> grid \<Rightarrow> pos set" where
  "visited_cells cols rows g = {p. in_grid cols rows p \<and> is_visited g p}"

definition base_inv :: "int \<Rightarrow> int \<Rightarrow> carve_state \<Rightarrow> bool" where
  "base_inv cols rows s = (case s of (g, stack, st) \<Rightarrow>
     has_shape cols rows g \<and> (0, 0) \<in> visited_cells cols rows g \<and>
     set stack \<subseteq> visited_cells cols rows g \<and>
     (\<forall>p. in_grid cols rows p \<longrightarrow> \<not> is_visited g p \<longrightarrow> (\<forall>s. wall_at g p s)))"

definition walls_agree :: "int \<Rightarrow> int \<Rightarrow> grid \<Rightarrow> bool" where
  "walls_agree cols rows g =
     (\<forall>p. \<forall>d \<in> set dirs. in_grid cols rows p \<longrightarrow> in_grid cols rows (step_to p d) \<longrightarrow>
        wall_at g p (wall d) = wall_at g (step_to p d) (opp d))"

definition acyclic_adj :: "int \<Rightarrow> int \<Rightarrow> grid \<Rightarrow> bool" where
  "acyclic_adj cols rows g = (\<forall>c. \<not> cycle (open_adj cols rows g) c)"

definition tree_inv :: "int \<Rightarrow> int \<Rightarrow> grid \<Rightarrow> bool" where
  "tree_inv cols rows g =
     ((\<forall>p \<in> visited_cells cols rows g. (open_adj cols rows g)\<^sup>*\<^sup>* (0, 0) p) \<and>
      card (open_adjacencies cols rows g) + 1 = card (visited_cells cols rows g) \<and>
      acyclic_adj cols rows g)"

definition finished_inv :: "int \<Rightarrow> int \<Rightarrow> carve_state \<Rightarrow> bool" where
  "finished_inv cols rows s = (case s of (g, stack, st) \<Rightarrow>
     (\<forall>p \<in> visited_cells cols rows g. p \<notin> set stack \<longrightarrow>
        (\<forall>d \<in> set dirs. in_grid cols rows (step_to p d) \<longrightarrow> is_visited g (step_to p d))))"

definition carve_inv :: "int \<Rightarrow> int \<Rightarrow> carve_state \<Rightarrow> bool" where
  "carve_inv cols rows s =
     (base_inv cols rows s \<and> walls_agree cols rows (fst s) \<and> tree_inv cols rows (fst s) \<and>
      finished_inv cols rows s)"

text \<open>What remains to do: two iterations for every unvisited cell, one for every stack entry.\<close>

definition remaining :: "int \<Rightarrow> int \<Rightarrow> carve_state \<Rightarrow> nat" where
  "remaining cols rows s = (case s of (g, stack, st) \<Rightarrow>
     2 * card {p. in_grid cols rows p \<and> \<not> is_visited g p} + length stack)"

lemma finite_visited_cells: "finite (visited_cells cols rows g)"
  by (rule finite_subset[OF _ finite_in_grid[of cols rows]]) (auto simp: visited_cells_def)

lemma walls_agree_push:
  assumes d0: "d0 \<in> set dirs"
    and wal: "\<forall>q s. in_grid cols rows q \<longrightarrow>
             wall_at g' q s = (wall_at g q s \<and> \<not> (q = cur \<and> s = wall d0)
                                \<and> \<not> (q = step_to cur d0 \<and> s = opp d0))"
    and agree: "walls_agree cols rows g"
  shows "walls_agree cols rows g'"
  unfolding walls_agree_def
proof (intro allI ballI impI)
  fix p d
  assume d: "d \<in> set dirs" and p: "in_grid cols rows p" and q: "in_grid cols rows (step_to p d)"
  have old: "wall_at g p (wall d) = wall_at g (step_to p d) (opp d)"
    using agree d p q unfolding walls_agree_def by blast
  have 1: "(p = cur \<and> wall d = wall d0) \<longleftrightarrow> (step_to p d = step_to cur d0 \<and> opp d = opp d0)"
    using dirs_wall_inj[OF d d0] dirs_opp_inj[OF d d0] step_to_inj by blast
  have 2: "(p = step_to cur d0 \<and> wall d = opp d0) \<longleftrightarrow> (step_to p d = cur \<and> opp d = wall d0)"
  proof
    assume a: "p = step_to cur d0 \<and> wall d = opp d0"
    then show "step_to p d = cur \<and> opp d = wall d0"
      using dirs_wall_opp[OF d d0, of cur] by simp
  next
    assume a: "step_to p d = cur \<and> opp d = wall d0"
    then have "step_to (step_to p d) d0 = p \<and> opp d0 = wall d"
      using dirs_wall_opp[OF d0 d, of p] by simp
    then show "p = step_to cur d0 \<and> wall d = opp d0" using a by simp
  qed
  have "wall_at g' p (wall d) = (wall_at g p (wall d) \<and> \<not> (p = cur \<and> wall d = wall d0)
      \<and> \<not> (p = step_to cur d0 \<and> wall d = opp d0))"
    using wal p by blast
  moreover have "wall_at g' (step_to p d) (opp d) = (wall_at g (step_to p d) (opp d)
      \<and> \<not> (step_to p d = cur \<and> opp d = wall d0)
      \<and> \<not> (step_to p d = step_to cur d0 \<and> opp d = opp d0))"
    using wal q by blast
  ultimately show "wall_at g' p (wall d) = wall_at g' (step_to p d) (opp d)"
    using old 1 2 by blast
qed

lemma tree_inv_push:
  assumes d0: "d0 \<in> set dirs" and cur: "cur \<in> visited_cells cols rows g"
    and nxt: "in_grid cols rows (step_to cur d0)" and unv: "\<not> is_visited g (step_to cur d0)"
    and vis: "\<forall>q. in_grid cols rows q \<longrightarrow>
             is_visited g' q = (q = step_to cur d0 \<or> is_visited g q)"
    and wal: "\<forall>q s. in_grid cols rows q \<longrightarrow>
             wall_at g' q s = (wall_at g q s \<and> \<not> (q = cur \<and> s = wall d0)
                                \<and> \<not> (q = step_to cur d0 \<and> s = opp d0))"
    and closed: "\<forall>p. in_grid cols rows p \<longrightarrow> \<not> is_visited g p \<longrightarrow> (\<forall>s. wall_at g p s)"
    and tree: "tree_inv cols rows g"
  shows "tree_inv cols rows g'"
proof -
  let ?v = "step_to cur d0"
  let ?adj = "open_adj cols rows g" and ?adj' = "open_adj cols rows g'"
  have curg: "in_grid cols rows cur" using cur by (simp add: visited_cells_def)
  have new: "\<And>a b. ?adj' a b \<longleftrightarrow> ?adj a b \<or> (a = cur \<and> b = ?v) \<or> (a = ?v \<and> b = cur)"
    by (rule open_adj_push[OF d0 curg nxt wal])
  have "\<forall>s. wall_at g ?v s" using closed nxt unv by blast
  then have iso: "\<And>a. \<not> ?adj ?v a" "\<And>a. \<not> ?adj a ?v"
    by (rule open_adj_closed_cell)+
  have cv: "cur \<noteq> ?v" using step_to_ne[OF d0, of cur] by simp
  have V: "visited_cells cols rows g' = insert ?v (visited_cells cols rows g)"
    using vis nxt unfolding visited_cells_def by blast
  have vnot: "?v \<notin> visited_cells cols rows g" using unv by (simp add: visited_cells_def)
  have reach: "\<forall>p \<in> visited_cells cols rows g'. ?adj'\<^sup>*\<^sup>* (0, 0) p"
  proof
    fix p assume "p \<in> visited_cells cols rows g'"
    then consider "p = ?v" | "p \<in> visited_cells cols rows g" unfolding V by blast
    then show "?adj'\<^sup>*\<^sup>* (0, 0) p"
    proof cases
      case 1
      have "?adj\<^sup>*\<^sup>* (0, 0) cur" using tree cur by (simp add: tree_inv_def)
      then show ?thesis unfolding 1 by (rule reach_leaf(2)[OF new])
    next
      case 2
      then have "?adj\<^sup>*\<^sup>* (0, 0) p" using tree by (simp add: tree_inv_def)
      then show ?thesis by (rule reach_leaf(1)[OF new])
    qed
  qed
  have E: "open_adjacencies cols rows g' = insert {cur, ?v} (open_adjacencies cols rows g)"
    and Enot: "{cur, ?v} \<notin> open_adjacencies cols rows g"
    unfolding open_adjacencies_def using edges_leaf[OF new iso] by simp_all
  have "card (open_adjacencies cols rows g') = Suc (card (open_adjacencies cols rows g))"
    unfolding E using Enot finite_open_adjacencies by simp
  moreover have "card (visited_cells cols rows g') = Suc (card (visited_cells cols rows g))"
    unfolding V using vnot finite_visited_cells by simp
  ultimately have cardeq: "card (open_adjacencies cols rows g') + 1 = card (visited_cells cols rows g')"
    using tree by (simp add: tree_inv_def)
  have "acyclic_adj cols rows g'"
    unfolding acyclic_adj_def
  proof (intro allI notI)
    fix c assume "cycle ?adj' c"
    then have "cycle ?adj c" by (rule cycle_leaf[OF new iso cv])
    then show False using tree by (simp add: tree_inv_def acyclic_adj_def)
  qed
  then show ?thesis using reach cardeq by (simp add: tree_inv_def)
qed

lemma carve_step_inv:
  assumes inv: "carve_inv cols rows (g, cur # rest, st)"
  shows "\<exists>s'. carve_step cols rows (g, cur # rest, st) = Inr s' \<and> carve_inv cols rows s' \<and>
           Suc (remaining cols rows s') = remaining cols rows (g, cur # rest, st)"
proof -
  have shape: "has_shape cols rows g" and origin: "(0, 0) \<in> visited_cells cols rows g"
    and stack: "set (cur # rest) \<subseteq> visited_cells cols rows g"
    and closed: "\<forall>p. in_grid cols rows p \<longrightarrow> \<not> is_visited g p \<longrightarrow> (\<forall>s. wall_at g p s)"
    and agree: "walls_agree cols rows g" and tree: "tree_inv cols rows g"
    and fin: "\<forall>p \<in> visited_cells cols rows g. p \<notin> set (cur # rest) \<longrightarrow>
        (\<forall>d \<in> set dirs. in_grid cols rows (step_to p d) \<longrightarrow> is_visited g (step_to p d))"
    using inv by (simp_all add: carve_inv_def base_inv_def finished_inv_def del: split_paired_All)
  have curV: "cur \<in> visited_cells cols rows g" using stack by simp
  then have curg: "in_grid cols rows cur" and curv: "is_visited g cur"
    by (simp_all add: visited_cells_def)
  from shape curg show ?thesis
  proof (cases rule: carve_step_cases[where rest = rest and st = st])
    case pop
    have "base_inv cols rows (g, rest, st)"
      using shape origin stack closed by (simp add: base_inv_def del: split_paired_All)
    moreover have "finished_inv cols rows (g, rest, st)"
      unfolding finished_inv_def using fin pop(2) by auto
    ultimately have "carve_inv cols rows (g, rest, st)"
      using agree tree by (simp add: carve_inv_def)
    moreover have "Suc (remaining cols rows (g, rest, st)) = remaining cols rows (g, cur # rest, st)"
      by (simp add: remaining_def)
    ultimately show ?thesis using pop(1) by simp
  next
    case (push d g')
    let ?v = "step_to cur d"
    have V: "visited_cells cols rows g' = insert ?v (visited_cells cols rows g)"
      using push(6,2) unfolding visited_cells_def by blast
    have closed': "\<forall>p. in_grid cols rows p \<longrightarrow> \<not> is_visited g' p \<longrightarrow> (\<forall>s. wall_at g' p s)"
    proof (intro allI impI)
      fix p s assume p: "in_grid cols rows p" and "\<not> is_visited g' p"
      then have "p \<noteq> ?v" "\<not> is_visited g p" using push(6) by blast+
      then have "p \<noteq> cur" "wall_at g p s" using curv closed p by blast+
      then show "wall_at g' p s" using push(7) p \<open>p \<noteq> ?v\<close> by blast
    qed
    have "base_inv cols rows (g', ?v # cur # rest, fst (rnd st))"
      using push(5) origin stack closed'
      by (auto simp add: base_inv_def V simp del: split_paired_All)
    moreover have "walls_agree cols rows g'"
      by (rule walls_agree_push[OF push(1,7) agree])
    moreover have "tree_inv cols rows g'"
      by (rule tree_inv_push[OF push(1) curV push(2,3,6,7) closed tree])
    moreover have "finished_inv cols rows (g', ?v # cur # rest, fst (rnd st))"
      unfolding finished_inv_def
    proof (clarsimp simp: V)
      fix a b d'
      assume a: "(a, b) \<in> visited_cells cols rows g" "(a, b) \<noteq> cur" "(a, b) \<notin> set rest"
        and d': "d' \<in> set dirs" "in_grid cols rows (step_to (a, b) d')"
      then have "is_visited g (step_to (a, b) d')" using fin by auto
      then show "is_visited g' (step_to (a, b) d')" using push(6) d'(2) by blast
    qed
    ultimately have 1: "carve_inv cols rows (g', ?v # cur # rest, fst (rnd st))"
      by (simp add: carve_inv_def)
    have U: "{p. in_grid cols rows p \<and> \<not> is_visited g p}
        = insert ?v {p. in_grid cols rows p \<and> \<not> is_visited g' p}"
      using push(2,3,6) by blast
    have "?v \<notin> {p. in_grid cols rows p \<and> \<not> is_visited g' p}" using push(2,6) by blast
    moreover have "finite {p. in_grid cols rows p \<and> \<not> is_visited g' p}"
      by (rule finite_subset[OF _ finite_in_grid[of cols rows]]) auto
    ultimately have "card {p. in_grid cols rows p \<and> \<not> is_visited g p}
        = Suc (card {p. in_grid cols rows p \<and> \<not> is_visited g' p})"
      unfolding U by simp
    then have 2: "Suc (remaining cols rows (g', ?v # cur # rest, fst (rnd st)))
        = remaining cols rows (g, cur # rest, st)"
      by (simp add: remaining_def)
    from 1 2 push(4) show ?thesis by simp
  qed
qed

subsection \<open>The initial state\<close>

lemma createGrid_shape: "has_shape cols rows (createGrid cols rows)"
  by (simp add: has_shape_def createGrid_def)

lemma cell_of_createGrid:
  assumes "in_grid cols rows p"
  shows "cell_of (createGrid cols rows) p = new_cell"
proof -
  have "nat (snd p) < nat rows" "nat (fst p) < nat cols"
    using assms by (auto simp: in_grid_def)
  then show ?thesis by (simp add: cell_of_def createGrid_def)
qed

lemma carve_init_inv:
  assumes "0 < cols" and "0 < rows"
  shows "\<exists>g. carve_init cols rows seed = Inr (g, [(0, 0)], createSeededRandom seed) \<and>
           carve_inv cols rows (g, [(0, 0)], createSeededRandom seed) \<and>
           remaining cols rows (g, [(0, 0)], createSeededRandom seed) = 2 * (nat cols * nat rows) - 1"
proof -
  let ?g0 = "createGrid cols rows"
  have o: "in_grid cols rows (0, 0)" using assms by (simp add: in_grid_def)
  obtain g where g: "set_cell ?g0 (0, 0) (\<lambda>c. c\<lparr>visited := True\<rparr>) = Inr g"
    using set_cell_total[OF createGrid_shape o] by blast
  have shape: "has_shape cols rows g" by (rule set_cell_shape[OF g createGrid_shape])
  have cells: "cell_of g q = (if q = (0, 0) then new_cell\<lparr>visited := True\<rparr> else new_cell)"
    if "in_grid cols rows q" for q
    using cell_of_set_cell[OF g createGrid_shape that] cell_of_createGrid[OF that]
      cell_of_createGrid[OF o] by auto
  have vis: "is_visited g q = (q = (0, 0))" if "in_grid cols rows q" for q
    using cells[OF that] by (simp add: is_visited_def new_cell_def)
  have wal: "wall_at g q s" if "in_grid cols rows q" for q s
    using cells[OF that] by (cases s) (simp_all add: wall_at_def new_cell_def)
  have V: "visited_cells cols rows g = {(0, 0)}"
    using vis o unfolding visited_cells_def by blast
  have noadj: "\<not> open_adj cols rows g a b" for a b
    using wal by (auto simp: open_adj_def)
  have E: "open_adjacencies cols rows g = {}"
    using noadj by (auto simp: open_adjacencies_def edges_def)
  have "\<not> cycle (open_adj cols rows g) c" for c
  proof
    assume c: "cycle (open_adj cols rows g) c"
    then have "3 \<le> length c" by (simp add: cycle_def)
    then have "0 < length c" by linarith
    then have "open_adj cols rows g (c ! 0) (c ! (Suc 0 mod length c))"
      using c unfolding cycle_def by blast
    then show False using noadj by simp
  qed
  then have tree: "tree_inv cols rows g"
    by (simp add: tree_inv_def acyclic_adj_def V E)
  have base: "base_inv cols rows (g, [(0, 0)], createSeededRandom seed)"
    using shape wal by (auto simp add: base_inv_def V simp del: split_paired_All)
  have agree: "walls_agree cols rows g"
    using wal by (auto simp add: walls_agree_def simp del: split_paired_All)
  have fin: "finished_inv cols rows (g, [(0, 0)], createSeededRandom seed)"
    by (simp add: finished_inv_def V)
  have U: "{p. in_grid cols rows p \<and> \<not> is_visited g p} = {p. in_grid cols rows p} - {(0, 0)}"
    using vis by blast
  define n where "n = nat cols * nat rows"
  have "card {p. in_grid cols rows p \<and> \<not> is_visited g p} = n - 1"
    unfolding U n_def using o by (simp add: card_in_grid finite_in_grid)
  moreover have "0 < n" using assms by (simp add: n_def)
  ultimately have "2 * card {p. in_grid cols rows p \<and> \<not> is_visited g p} + 1 = 2 * n - 1"
    by linarith
  then have rem: "remaining cols rows (g, [(0, 0)], createSeededRandom seed)
      = 2 * (nat cols * nat rows) - 1"
    by (simp add: remaining_def n_def)
  have "carve_init cols rows seed = Inr (g, [(0, 0)], createSeededRandom seed)"
    by (simp add: carve_init_def andThen_def g)
  then show ?thesis using base agree tree fin rem by (simp add: carve_inv_def)
qed

subsection \<open>The final state\<close>

lemma all_visited:
  assumes inv: "carve_inv cols rows (g, [], st)" and p: "in_grid cols rows p"
  shows "is_visited g p"
proof -
  have origin: "is_visited g (0, 0)"
    using inv by (simp add: carve_inv_def base_inv_def visited_cells_def)
  have fin: "\<forall>p \<in> visited_cells cols rows g.
      \<forall>d \<in> set dirs. in_grid cols rows (step_to p d) \<longrightarrow> is_visited g (step_to p d)"
    using inv by (simp add: carve_inv_def finished_inv_def)
  have step: "is_visited g (step_to q d)"
    if "in_grid cols rows q" "is_visited g q" "d \<in> set dirs" "in_grid cols rows (step_to q d)" for q d
    using fin that unfolding visited_cells_def by blast
  have "in_grid cols rows (x, y) \<Longrightarrow> nat x + nat y = n \<Longrightarrow> is_visited g (x, y)" for x y n
  proof (induction n arbitrary: x y)
    case 0
    then have "(x, y) = (0, 0)" by (auto simp: in_grid_def)
    then show ?case using origin by simp
  next
    case (Suc n)
    show ?case
    proof (cases "0 < x")
      case True
      have q: "in_grid cols rows (x - 1, y)" using Suc.prems(1) True by (simp add: in_grid_def)
      have "nat (x - 1) + nat y = n" using Suc.prems(2) True by linarith
      then have v: "is_visited g (x - 1, y)" using Suc.IH[OF q] by simp
      have d: "\<lparr>dx = 1, dy = 0, wall = Right, opp = Left\<rparr> \<in> set dirs" by (simp add: dirs_def)
      show ?thesis using step[OF q v d] Suc.prems(1) by (simp add: step_to_def)
    next
      case False
      then have y: "0 < y" and x: "x = 0" using Suc.prems by (auto simp: in_grid_def)
      have q: "in_grid cols rows (x, y - 1)" using Suc.prems(1) y by (simp add: in_grid_def)
      have "nat x + nat (y - 1) = n" using Suc.prems(2) y x by linarith
      then have v: "is_visited g (x, y - 1)" using Suc.IH[OF q] by simp
      have d: "\<lparr>dx = 0, dy = 1, wall = Bottom, opp = Top\<rparr> \<in> set dirs" by (simp add: dirs_def)
      show ?thesis using step[OF q v d] Suc.prems(1) by (simp add: step_to_def)
    qed
  qed
  then show ?thesis using p by (cases p) simp
qed

lemma remaining_empty_stack:
  assumes "carve_inv cols rows (g, [], st)"
  shows "remaining cols rows (g, [], st) = 0"
proof -
  have "{p. in_grid cols rows p \<and> \<not> is_visited g p} = {}"
    using all_visited[OF assms] by blast
  then have "card {p. in_grid cols rows p \<and> \<not> is_visited g p} = 0"
    by (simp only: card.empty)
  then show ?thesis by (simp add: remaining_def)
qed

lemma carve_loop_inv:
  "carve_inv cols rows s \<Longrightarrow>
     \<exists>g st. carve_loop cols rows s = Inr (g, [], st) \<and> carve_inv cols rows (g, [], st)"
proof (induction cols rows s rule: carve_loop.induct)
  case (1 cols rows g stack state)
  show ?case
  proof (cases stack)
    case Nil
    then show ?thesis using "1.prems" by simp
  next
    case (Cons cur rest)
    from carve_step_inv[OF "1.prems"[unfolded Cons]] obtain s' where
      s': "carve_step cols rows (g, stack, state) = Inr s'" "carve_inv cols rows s'"
      unfolding Cons by blast
    have "stack \<noteq> []" using Cons by simp
    from "1.IH"[OF this s'] show ?thesis using s'(1) Cons by simp
  qed
qed

subsection \<open>Counting the iterations\<close>

text \<open>The state after \<open>n\<close> iterations of the loop body.\<close>

fun carve_iter :: "int \<Rightarrow> int \<Rightarrow> nat \<Rightarrow> carve_state \<Rightarrow> error + carve_state" where
  "carve_iter cols rows 0 s = Inr s"
| "carve_iter cols rows (Suc n) s = andThen (carve_step cols rows s) (carve_iter cols rows n)"

text \<open>The coordinate an iteration pushes (\<^verbatim>\<open>stack.push({ x: next.nx, y: next.ny })\<close>), if it pushes.\<close>

definition pushed_by :: "int \<Rightarrow> int \<Rightarrow> carve_state \<Rightarrow> pos option" where
  "pushed_by cols rows s =
     (case carve_step cols rows s of
        Inl e \<Rightarrow> None
      | Inr s' \<Rightarrow>
          if length (fst (snd s)) < length (fst (snd s')) then Some (hd (fst (snd s'))) else None)"

text \<open>The coordinates pushed by the first \<open>n\<close> iterations, in order.\<close>

fun push_trace :: "int \<Rightarrow> int \<Rightarrow> nat \<Rightarrow> carve_state \<Rightarrow> pos list" where
  "push_trace cols rows 0 s = []"
| "push_trace cols rows (Suc n) s =
     (case carve_step cols rows s of
        Inl e \<Rightarrow> []
      | Inr s' \<Rightarrow>
          (case pushed_by cols rows s of None \<Rightarrow> [] | Some p \<Rightarrow> [p]) @ push_trace cols rows n s')"

definition unvisited_cells :: "int \<Rightarrow> int \<Rightarrow> grid \<Rightarrow> pos set" where
  "unvisited_cells cols rows g = {p. in_grid cols rows p \<and> \<not> is_visited g p}"

lemma carve_step_pushed:
  assumes inv: "carve_inv cols rows (g, cur # rest, st)"
    and step: "carve_step cols rows (g, cur # rest, st) = Inr (g', stack', st')"
  shows "(pushed_by cols rows (g, cur # rest, st) = None \<and>
            unvisited_cells cols rows g' = unvisited_cells cols rows g)
       \<or> (\<exists>p. pushed_by cols rows (g, cur # rest, st) = Some p \<and>
             p \<notin> unvisited_cells cols rows g' \<and>
             unvisited_cells cols rows g = insert p (unvisited_cells cols rows g'))"
proof -
  have shape: "has_shape cols rows g" and stack: "set (cur # rest) \<subseteq> visited_cells cols rows g"
    using inv by (simp_all add: carve_inv_def base_inv_def del: split_paired_All)
  then have curg: "in_grid cols rows cur" by (simp add: visited_cells_def)
  from shape curg show ?thesis
  proof (cases rule: carve_step_cases[where rest = rest and st = st])
    case pop
    then have "pushed_by cols rows (g, cur # rest, st) = None" "g' = g"
      using step by (simp_all add: pushed_by_def)
    then show ?thesis by simp
  next
    case (push d g1)
    then have "pushed_by cols rows (g, cur # rest, st) = Some (step_to cur d)" and g': "g' = g1"
      using step by (simp_all add: pushed_by_def)
    moreover have "step_to cur d \<notin> unvisited_cells cols rows g'"
      using push(2,6) unfolding g' unvisited_cells_def by blast
    moreover have "unvisited_cells cols rows g
        = insert (step_to cur d) (unvisited_cells cols rows g')"
      using push(2,3,6) unfolding g' unvisited_cells_def by blast
    ultimately show ?thesis by simp
  qed
qed

lemma carve_iter_run:
  "carve_inv cols rows s \<Longrightarrow> remaining cols rows s = n \<Longrightarrow>
     \<exists>g st. carve_iter cols rows n s = Inr (g, [], st) \<and>
       carve_loop cols rows s = Inr (g, [], st) \<and>
       carve_inv cols rows (g, [], st) \<and>
       (\<forall>k < n. \<exists>gk stk stk'. carve_iter cols rows k s = Inr (gk, stk, stk') \<and> stk \<noteq> []) \<and>
       distinct (push_trace cols rows n s) \<and>
       set (push_trace cols rows n s) = unvisited_cells cols rows (fst s)"
proof (induction n arbitrary: s)
  case 0
  obtain g stack st where s: "s = (g, stack, st)" by (cases s)
  have "stack = []" using "0.prems"(2) by (simp add: s remaining_def)
  moreover have "unvisited_cells cols rows g = {}"
    using all_visited[of cols rows g st] "0.prems"(1) \<open>stack = []\<close>
    unfolding s unvisited_cells_def by blast
  ultimately show ?case using "0.prems"(1) by (simp add: s)
next
  case (Suc n)
  obtain g stack st where s: "s = (g, stack, st)" by (cases s)
  have "stack \<noteq> []"
    using remaining_empty_stack[of cols rows g st] Suc.prems unfolding s by auto
  then obtain cur rest where stack: "stack = cur # rest" by (cases stack) auto
  have inv: "carve_inv cols rows (g, cur # rest, st)" using Suc.prems(1) by (simp add: s stack)
  from carve_step_inv[OF inv] obtain s1 where
    s1: "carve_step cols rows (g, cur # rest, st) = Inr s1" "carve_inv cols rows s1"
      "Suc (remaining cols rows s1) = remaining cols rows (g, cur # rest, st)"
    by blast
  obtain g1 stack1 st1 where s1eq: "s1 = (g1, stack1, st1)" by (cases s1)
  have "remaining cols rows s1 = n" using s1(3) Suc.prems(2) by (simp add: s stack)
  from Suc.IH[OF s1(2) this] obtain gf stf where
    f: "carve_iter cols rows n s1 = Inr (gf, [], stf)"
       "carve_loop cols rows s1 = Inr (gf, [], stf)"
       "carve_inv cols rows (gf, [], stf)"
       "\<forall>k < n. \<exists>gk stk stk'. carve_iter cols rows k s1 = Inr (gk, stk, stk') \<and> stk \<noteq> []"
       "distinct (push_trace cols rows n s1)"
       "set (push_trace cols rows n s1) = unvisited_cells cols rows g1"
    unfolding s1eq by auto
  have 1: "carve_iter cols rows (Suc n) s = Inr (gf, [], stf)"
    using f(1) s1(1) by (simp add: s stack andThen_def)
  have 2: "carve_loop cols rows s = Inr (gf, [], stf)"
    using f(2) s1(1) by (simp add: s stack)
  have 3: "\<forall>k < Suc n. \<exists>gk stk stk'. carve_iter cols rows k s = Inr (gk, stk, stk') \<and> stk \<noteq> []"
  proof (intro allI impI)
    fix k assume k: "k < Suc n"
    show "\<exists>gk stk stk'. carve_iter cols rows k s = Inr (gk, stk, stk') \<and> stk \<noteq> []"
    proof (cases k)
      case 0
      then show ?thesis by (simp add: s stack)
    next
      case (Suc k')
      then have "k' < n" using k by simp
      then show ?thesis using f(4) s1(1) Suc by (simp add: s stack andThen_def)
    qed
  qed
  have tr: "push_trace cols rows (Suc n) (g, cur # rest, st)
      = (case pushed_by cols rows (g, cur # rest, st) of None \<Rightarrow> [] | Some p \<Rightarrow> [p])
          @ push_trace cols rows n s1"
    using s1(1) by simp
  from carve_step_pushed[OF inv s1(1)[unfolded s1eq]]
  have 4: "distinct (push_trace cols rows (Suc n) s) \<and>
      set (push_trace cols rows (Suc n) s) = unvisited_cells cols rows (fst s)"
    unfolding s stack tr using f(5,6) by (elim disjE exE conjE) simp_all
  from 1 2 3 4 f(3) show ?case by blast
qed

lemma carve_tree_run:
  assumes "0 < cols" and "0 < rows"
  shows "\<exists>s0 g st. carve_init cols rows seed = Inr s0 \<and>
     carve_loop cols rows s0 = Inr (g, [], st) \<and>
     carve_tree cols rows seed = Inr g \<and>
     carve_inv cols rows (g, [], st) \<and>
     carve_iter cols rows (2 * (nat cols * nat rows) - 1) s0 = Inr (g, [], st) \<and>
     (\<forall>k < 2 * (nat cols * nat rows) - 1.
        \<exists>gk stk stk'. carve_iter cols rows k s0 = Inr (gk, stk, stk') \<and> stk \<noteq> []) \<and>
     distinct ((0, 0) # push_trace cols rows (2 * (nat cols * nat rows) - 1) s0) \<and>
     set ((0, 0) # push_trace cols rows (2 * (nat cols * nat rows) - 1) s0)
       = {p. in_grid cols rows p}"
proof -
  let ?n = "2 * (nat cols * nat rows) - 1"
  from carve_init_inv[OF assms, of seed] obtain g0 where
    init: "carve_init cols rows seed = Inr (g0, [(0, 0)], createSeededRandom seed)"
    and inv0: "carve_inv cols rows (g0, [(0, 0)], createSeededRandom seed)"
    and rem: "remaining cols rows (g0, [(0, 0)], createSeededRandom seed) = ?n"
    by blast
  let ?s0 = "(g0, [(0, 0)], createSeededRandom seed)"
  from carve_iter_run[OF inv0 rem] obtain g st where
    run: "carve_iter cols rows ?n ?s0 = Inr (g, [], st)"
      "carve_loop cols rows ?s0 = Inr (g, [], st)"
      "carve_inv cols rows (g, [], st)"
      "\<forall>k < ?n. \<exists>gk stk stk'. carve_iter cols rows k ?s0 = Inr (gk, stk, stk') \<and> stk \<noteq> []"
      "distinct (push_trace cols rows ?n ?s0)"
      "set (push_trace cols rows ?n ?s0) = unvisited_cells cols rows g0"
    by auto
  have tree: "carve_tree cols rows seed = Inr g"
    using init run(2) by (simp add: carve_tree_def andThen_def)
  have o: "(0, 0) \<in> visited_cells cols rows g0"
    using inv0 by (simp add: carve_inv_def base_inv_def)
  have V: "visited_cells cols rows g0 = {(0, 0)}"
  proof -
    have "card (unvisited_cells cols rows g0) = nat cols * nat rows - 1"
      using rem by (simp add: remaining_def unvisited_cells_def)
    moreover have "visited_cells cols rows g0 \<union> unvisited_cells cols rows g0 = {p. in_grid cols rows p}"
      "visited_cells cols rows g0 \<inter> unvisited_cells cols rows g0 = {}"
      unfolding visited_cells_def unvisited_cells_def by blast+
    moreover have "finite (unvisited_cells cols rows g0)"
      unfolding unvisited_cells_def
      by (rule finite_subset[OF _ finite_in_grid[of cols rows]]) auto
    ultimately have "card (visited_cells cols rows g0) + (nat cols * nat rows - 1) = nat cols * nat rows"
      using card_Un_disjoint[OF finite_visited_cells[of cols rows g0], of "unvisited_cells cols rows g0"]
        card_in_grid[of cols rows] by simp
    moreover have "0 < nat cols * nat rows" using assms by simp
    ultimately have "card (visited_cells cols rows g0) = 1" by linarith
    then obtain a where "visited_cells cols rows g0 = {a}" by (auto simp: card_1_singleton_iff)
    then show ?thesis using o by auto
  qed
  have U: "unvisited_cells cols rows g0 = {p. in_grid cols rows p} - {(0, 0)}"
    using V unfolding visited_cells_def unvisited_cells_def by blast
  have og: "in_grid cols rows (0, 0)" using assms by (simp add: in_grid_def)
  have tr: "distinct ((0, 0) # push_trace cols rows ?n ?s0)"
    "set ((0, 0) # push_trace cols rows ?n ?s0) = {p. in_grid cols rows p}"
    using run(5,6) og unfolding U by auto
  from init run(1,2,3,4) tree tr show ?thesis by blast
qed

subsection \<open>Opening the entry and the exit\<close>

lemma get_cell_outside:
  assumes "has_shape cols rows g" and "\<not> in_grid cols rows p"
  shows "get_cell g p = Inl TypeError"
proof (cases "0 \<le> snd p \<and> snd p < int (length g)")
  case False
  then show ?thesis by (auto simp: get_cell_def Let_def)
next
  case True
  then have "nat (snd p) < length g" by linarith
  then have "g ! nat (snd p) \<in> set g" by (rule nth_mem)
  then have "length (g ! nat (snd p)) = nat cols" using assms(1) by (simp add: has_shape_def)
  moreover have "snd p < rows" using assms(1) True by (simp add: has_shape_def split: if_splits)
  then have "\<not> (0 \<le> fst p \<and> fst p < cols)"
    using assms(2) True by (auto simp: in_grid_def)
  ultimately show ?thesis using True by (auto simp: get_cell_def Let_def)
qed

lemma open_wall_shape:
  assumes "has_shape cols rows g"
  shows "open_wall g ps = (if in_grid cols rows (fst ps)
     then Inr (projr (open_wall g ps)) else Inl TypeError)"
proof (cases "in_grid cols rows (fst ps)")
  case True
  from set_cell_total[OF assms True] obtain g' where "open_wall g ps = Inr g'"
    unfolding open_wall_def by blast
  then show ?thesis using True by simp
next
  case False
  then show ?thesis using get_cell_outside[OF assms False]
    by (simp add: open_wall_def set_cell_def)
qed

lemma open_wall_walls:
  assumes "open_wall g ps = Inr g'" and "has_shape cols rows g" and "in_grid cols rows q"
  shows "wall_at g' q t = (wall_at g q t \<and> (q, t) \<noteq> ps)"
  using cell_of_set_cell[OF assms(1)[unfolded open_wall_def] assms(2,3)]
  by (cases ps) (auto simp: wall_at_def)

lemma open_wall_opens:
  assumes "open_wall g ps = Inr g'"
  shows "\<not> wall_at g' (fst ps) (snd ps)"
proof -
  from set_cell_InrD[OF assms[unfolded open_wall_def]] obtain c where
    c: "get_cell g (fst ps) = Inr c" by auto
  have "get_cell g' (fst ps) = Inr (c\<lparr>walls := clear_wall (snd ps) (walls c)\<rparr>)"
    using get_set_cell_same[OF assms[unfolded open_wall_def] c] .
  from get_cell_cell_of[OF this, symmetric] show ?thesis by (simp add: wall_at_def)
qed

lemma open_wall_keeps_open:
  assumes "open_wall g ps = Inr g'" and "get_cell g q = Inr c" and "\<not> wall_at g q t"
  shows "\<not> wall_at g' q t"
proof -
  have "get_cell g' q = Inr (if q = fst ps then c\<lparr>walls := clear_wall (snd ps) (walls c)\<rparr> else c)"
    using get_cell_set_cell[OF assms(1)[unfolded open_wall_def], of q] assms(2) by simp
  from get_cell_cell_of[OF this, symmetric] get_cell_cell_of[OF assms(2)] assms(3)
  show ?thesis by (auto simp: wall_at_def)
qed

lemma carveMaze_InrD:
  assumes "carveMaze cols rows seed entry exit = Inr g"
  obtains gt g1 where "carve_tree cols rows seed = Inr gt"
    and "open_wall gt (entryFinal entry) = Inr g1"
    and "open_wall g1 (exitFinal cols rows exit) = Inr g"
  using assms by (auto simp: carveMaze_def andThen_def split: sum.splits)

lemma carveMaze_opens:
  assumes "carveMaze cols rows seed entry exit = Inr g"
  shows "\<not> wall_at g (fst (entryFinal entry)) (snd (entryFinal entry))"
    and "\<not> wall_at g (fst (exitFinal cols rows exit)) (snd (exitFinal cols rows exit))"
proof -
  from assms obtain gt g1 where gt: "carve_tree cols rows seed = Inr gt"
    and g1: "open_wall gt (entryFinal entry) = Inr g1"
    and g: "open_wall g1 (exitFinal cols rows exit) = Inr g"
    by (rule carveMaze_InrD)
  from set_cell_InrD[OF g1[unfolded open_wall_def]] obtain c where
    c: "get_cell gt (fst (entryFinal entry)) = Inr c" by auto
  have c1: "get_cell g1 (fst (entryFinal entry))
      = Inr (c\<lparr>walls := clear_wall (snd (entryFinal entry)) (walls c)\<rparr>)"
    using get_set_cell_same[OF g1[unfolded open_wall_def] c] .
  show "\<not> wall_at g (fst (entryFinal entry)) (snd (entryFinal entry))"
    by (rule open_wall_keeps_open[OF g c1 open_wall_opens[OF g1]])
  show "\<not> wall_at g (fst (exitFinal cols rows exit)) (snd (exitFinal cols rows exit))"
    by (rule open_wall_opens[OF g])
qed

lemma carve_tree_shape:
  assumes "0 < cols" and "0 < rows"
  shows "\<exists>g. carve_tree cols rows seed = Inr g \<and> has_shape cols rows g \<and>
     walls_agree cols rows g"
proof -
  from carve_tree_run[OF assms, of seed] obtain g st where
    "carve_tree cols rows seed = Inr g" "carve_inv cols rows (g, [], st)" by blast
  then show ?thesis by (auto simp: carve_inv_def base_inv_def)
qed

lemma carveMaze_result:
  assumes "0 < cols" and "0 < rows"
  shows "\<exists>gt. carve_tree cols rows seed = Inr gt \<and> has_shape cols rows gt \<and>
     walls_agree cols rows gt \<and>
     (if in_grid cols rows (fst (entryFinal entry)) \<and> in_grid cols rows (fst (exitFinal cols rows exit))
      then \<exists>g. carveMaze cols rows seed entry exit = Inr g \<and> has_shape cols rows g \<and>
             (\<forall>q t. in_grid cols rows q \<longrightarrow>
                wall_at g q t = (wall_at gt q t \<and> (q, t) \<noteq> entryFinal entry
                                   \<and> (q, t) \<noteq> exitFinal cols rows exit))
      else carveMaze cols rows seed entry exit = Inl TypeError)"
proof -
  from carve_tree_shape[OF assms, of seed] obtain gt where
    gt: "carve_tree cols rows seed = Inr gt" "has_shape cols rows gt" "walls_agree cols rows gt"
    by blast
  let ?pe = "entryFinal entry" and ?px = "exitFinal cols rows exit"
  show ?thesis
  proof (cases "in_grid cols rows (fst ?pe)")
    case False
    then have "carveMaze cols rows seed entry exit = Inl TypeError"
      using open_wall_shape[OF gt(2), of ?pe] by (simp add: carveMaze_def andThen_def gt(1))
    then show ?thesis using gt False by auto
  next
    case e: True
    then obtain g1 where g1: "open_wall gt ?pe = Inr g1"
      using open_wall_shape[OF gt(2), of ?pe] by auto
    have s1: "has_shape cols rows g1"
      using set_cell_shape[OF g1[unfolded open_wall_def] gt(2)] .
    show ?thesis
    proof (cases "in_grid cols rows (fst ?px)")
      case False
      then have "carveMaze cols rows seed entry exit = Inl TypeError"
        using open_wall_shape[OF s1, of ?px] by (simp add: carveMaze_def andThen_def gt(1) g1)
      then show ?thesis using gt False by auto
    next
      case x: True
      then obtain g where g: "open_wall g1 ?px = Inr g"
        using open_wall_shape[OF s1, of ?px] by auto
      have s: "has_shape cols rows g"
        using set_cell_shape[OF g[unfolded open_wall_def] s1] .
      have "carveMaze cols rows seed entry exit = Inr g"
        by (simp add: carveMaze_def andThen_def gt(1) g1 g)
      moreover have "\<forall>q t. in_grid cols rows q \<longrightarrow>
          wall_at g q t = (wall_at gt q t \<and> (q, t) \<noteq> ?pe \<and> (q, t) \<noteq> ?px)"
        using open_wall_walls[OF g s1] open_wall_walls[OF g1 gt(2)] by blast
      ultimately show ?thesis using gt e x s by auto
    qed
  qed
qed

section \<open>Examples: a 2 by 2 maze with seed 0\<close>

abbreviation vcell :: "bool \<Rightarrow> bool \<Rightarrow> bool \<Rightarrow> bool \<Rightarrow> cell" where
  "vcell t r b l \<equiv> \<lparr>visited = True, walls = \<lparr>top_w = t, right_w = r, bottom_w = b, left_w = l\<rparr>\<rparr>"

lemma createGrid_2_2: "createGrid 2 2 = [[new_cell, new_cell], [new_cell, new_cell]]"
  by (simp add: createGrid_def numeral_2_eq_2)

lemmas eval_defs = carve_init_def set_cell_def get_cell_def andThen_def
  createSeededRandom_def to_uint32_def trunc_def carve_step_def neighborsUnvisited_def
  dirs_def with_target_def in_bounds_unvisited_def nth_err_def rnd_def new_cell_def
  carve_tree_def carveMaze_def open_wall_def entryFinal_def exitFinal_def createGrid_2_2

lemma carve_tree_2_2_0:
  "carve_tree 2 2 0 = Inr [[vcell True False True True, vcell True True False False],
                           [vcell True False True True, vcell False True True False]]"
  by (simp add: eval_defs)

lemma carveMaze_2_2_0_default:
  "carveMaze 2 2 0 None None = Inr [[vcell False False True True, vcell True True False False],
                                    [vcell True False True True, vcell False True False False]]"
  by (simp add: eval_defs)

lemma carveMaze_2_2_0_inward:
  "carveMaze 2 2 0 (Some \<lparr>pt_x = Some 0, pt_y = Some 0, pt_side = Some Bottom\<rparr>) None
     = Inr [[vcell True False False True, vcell True True False False],
            [vcell True False True True, vcell False True False False]]"
  by (simp add: eval_defs)

section \<open>Properties of carving\<close>

text \<open>
  C2. For positive \<open>cols\<close> and \<open>rows\<close>, the grid of \<^verbatim>\<open>carveMaze\<close> when the loop has ended (before
  the entry and the exit are opened) has exactly \<open>rows * cols - 1\<close> open adjacencies (unordered
  pairs of adjacent cells whose shared wall is cleared on both cells), every cell is reachable
  from \<open>(0, 0)\<close> through open adjacencies, and no list of three or more distinct cells is a
  cycle of open adjacencies: the open adjacencies form a spanning tree of the grid.
\<close>

theorem carved_grid_is_spanning_tree:
  assumes "0 < cols" and "0 < rows"
  shows "\<exists>g. carve_tree cols rows seed = Inr g \<and>
    card (open_adjacencies cols rows g) = nat (rows * cols) - 1 \<and>
    (\<forall>p. in_grid cols rows p \<longrightarrow> (open_adj cols rows g)\<^sup>*\<^sup>* (0, 0) p) \<and>
    (\<forall>c. \<not> cycle (open_adj cols rows g) c)"
proof -
  from carve_tree_run[OF assms, of seed] obtain g st where
    g: "carve_tree cols rows seed = Inr g" and inv: "carve_inv cols rows (g, [], st)" by blast
  have V: "visited_cells cols rows g = {p. in_grid cols rows p}"
    using all_visited[OF inv] unfolding visited_cells_def by blast
  have tree: "tree_inv cols rows g" using inv by (simp add: carve_inv_def)
  have "card (open_adjacencies cols rows g) + 1 = nat cols * nat rows"
    using tree unfolding tree_inv_def V by (simp add: card_in_grid)
  moreover have "nat (rows * cols) = nat cols * nat rows"
    using assms by (simp add: nat_mult_distrib mult.commute)
  ultimately have 1: "card (open_adjacencies cols rows g) = nat (rows * cols) - 1" by simp
  have 2: "\<forall>p. in_grid cols rows p \<longrightarrow> (open_adj cols rows g)\<^sup>*\<^sup>* (0, 0) p"
    using tree unfolding tree_inv_def V by blast
  have 3: "\<forall>c. \<not> cycle (open_adj cols rows g) c"
    using tree by (simp add: tree_inv_def acyclic_adj_def)
  from g 1 2 3 show ?thesis by blast
qed

theorem carved_grid_is_spanning_tree_witness:
  "card (open_adjacencies 2 2 [[vcell True False True True, vcell True True False False],
                               [vcell True False True True, vcell False True True False]]) = 3
   \<and> (open_adj 2 2 [[vcell True False True True, vcell True True False False],
                     [vcell True False True True, vcell False True True False]])\<^sup>*\<^sup>* (0, 0) (0, 1)
   \<and> \<not> cycle (open_adj 2 2 [[vcell True False True True, vcell True True False False],
                             [vcell True False True True, vcell False True True False]])
        [(0, 0), (1, 0), (1, 1), (0, 1)]"
  using carved_grid_is_spanning_tree[of 2 2 0] by (simp add: carve_tree_2_2_0 in_grid_def)

text \<open>
  C9. For positive \<open>cols\<close> and \<open>rows\<close> the loop returns. It runs exactly
  \<open>2 * cols * rows - 1\<close> iterations: the stack is non-empty before each of them and empty after
  the last, and then every cell is visited. The coordinates pushed, with the initial
  \<open>(0, 0)\<close>, list every cell of the grid exactly once (a push is what marks a cell visited).
\<close>

theorem carve_loop_terminates:
  assumes "0 < cols" and "0 < rows"
  shows "\<exists>s0 g st. carve_init cols rows seed = Inr s0 \<and>
     carve_loop cols rows s0 = Inr (g, [], st) \<and>
     carve_iter cols rows (2 * (nat cols * nat rows) - 1) s0 = Inr (g, [], st) \<and>
     (\<forall>k < 2 * (nat cols * nat rows) - 1.
        \<exists>gk stk stk'. carve_iter cols rows k s0 = Inr (gk, stk, stk') \<and> stk \<noteq> []) \<and>
     (\<forall>p. in_grid cols rows p \<longrightarrow> is_visited g p) \<and>
     distinct ((0, 0) # push_trace cols rows (2 * (nat cols * nat rows) - 1) s0) \<and>
     set ((0, 0) # push_trace cols rows (2 * (nat cols * nat rows) - 1) s0)
       = {p. in_grid cols rows p}"
proof -
  from carve_tree_run[OF assms, of seed] obtain s0 g st where
    run: "carve_init cols rows seed = Inr s0"
      "carve_loop cols rows s0 = Inr (g, [], st)"
      "carve_inv cols rows (g, [], st)"
      "carve_iter cols rows (2 * (nat cols * nat rows) - 1) s0 = Inr (g, [], st)"
      "\<forall>k < 2 * (nat cols * nat rows) - 1.
        \<exists>gk stk stk'. carve_iter cols rows k s0 = Inr (gk, stk, stk') \<and> stk \<noteq> []"
      "distinct ((0, 0) # push_trace cols rows (2 * (nat cols * nat rows) - 1) s0)"
      "set ((0, 0) # push_trace cols rows (2 * (nat cols * nat rows) - 1) s0)
         = {p. in_grid cols rows p}"
    by blast
  have "\<forall>p. in_grid cols rows p \<longrightarrow> is_visited g p"
    using all_visited[OF run(3)] by blast
  with run(1,2,4,5,6,7) show ?thesis by blast
qed

theorem carve_loop_terminates_witness:
  "\<exists>s0 g st. carve_init 2 2 0 = Inr s0 \<and> carve_loop 2 2 s0 = Inr (g, [], st) \<and>
     carve_iter 2 2 7 s0 = Inr (g, [], st) \<and> is_visited g (1, 1) \<and>
     length (push_trace 2 2 7 s0) = 3"
proof -
  have pos: "(0::int) < 2" by simp
  have n: "2 * (nat 2 * nat 2) - 1 = (7::nat)" by simp
  from carve_loop_terminates[OF pos pos, of 0, unfolded n] obtain s0 g st where
    run: "carve_init 2 2 0 = Inr s0" "carve_loop 2 2 s0 = Inr (g, [], st)"
      "carve_iter 2 2 7 s0 = Inr (g, [], st)" "\<forall>p. in_grid 2 2 p \<longrightarrow> is_visited g p"
      "distinct ((0, 0) # push_trace 2 2 7 s0)"
      "set ((0, 0) # push_trace 2 2 7 s0) = {p. in_grid 2 2 p}"
    by blast
  have "in_grid 2 2 (1, 1)" by (simp add: in_grid_def)
  then have v: "is_visited g (1, 1)" using run(4) by blast
  have "card (set ((0, 0) # push_trace 2 2 7 s0)) = 4"
    unfolding run(6) by (simp add: card_in_grid)
  then have "length ((0, 0) # push_trace 2 2 7 s0) = 4"
    using distinct_card[OF run(5)] by simp
  then have "length (push_trace 2 2 7 s0) = 3" by simp
  with run(1,2,3) v show ?thesis by blast
qed

text \<open>
  C10. For positive \<open>cols\<close> and \<open>rows\<close>, no step up to the end of the loop throws: the
  initialisation and every iteration return a state, so every grid access of the loop is in
  range. The filter of \<^verbatim>\<open>neighborsUnvisited\<close> answers \<open>false\<close> for a candidate outside
  \<open>0 \<le> nx < cols\<close>, \<open>0 \<le> ny < rows\<close> without reading the grid, whatever the grid is. An
  exception of \<^verbatim>\<open>carveMaze\<close> therefore comes from the entry or exit indexing only: it throws
  exactly when the resolved entry or exit cell is outside the grid.
\<close>

theorem carving_loop_stays_in_bounds:
  assumes "0 < cols" and "0 < rows"
  shows "(\<exists>s0. carve_init cols rows seed = Inr s0 \<and>
            (\<forall>k \<le> 2 * (nat cols * nat rows) - 1. \<exists>sk. carve_iter cols rows k s0 = Inr sk)) \<and>
         (\<exists>g. carve_tree cols rows seed = Inr g) \<and>
         (\<forall>g n. \<not> in_grid cols rows (nx n, ny n) \<longrightarrow> in_bounds_unvisited cols rows g n = Inr False) \<and>
         (carveMaze cols rows seed entry exit = Inl TypeError \<longleftrightarrow>
            \<not> in_grid cols rows (fst (entryFinal entry)) \<or>
            \<not> in_grid cols rows (fst (exitFinal cols rows exit)))"
proof -
  let ?n = "2 * (nat cols * nat rows) - 1"
  from carve_tree_run[OF assms, of seed] obtain s0 g st where
    run: "carve_init cols rows seed = Inr s0"
      "carve_tree cols rows seed = Inr g"
      "carve_iter cols rows ?n s0 = Inr (g, [], st)"
      "\<forall>k < ?n. \<exists>gk stk stk'. carve_iter cols rows k s0 = Inr (gk, stk, stk') \<and> stk \<noteq> []"
    by blast
  have "\<exists>sk. carve_iter cols rows k s0 = Inr sk" if "k \<le> ?n" for k
  proof (cases "k = ?n")
    case True
    then show ?thesis using run(3) by blast
  next
    case False
    then have "k < ?n" using that by simp
    then show ?thesis using run(4) by blast
  qed
  then have 1: "\<exists>s0. carve_init cols rows seed = Inr s0 \<and>
      (\<forall>k \<le> ?n. \<exists>sk. carve_iter cols rows k s0 = Inr sk)"
    using run(1) by blast
  have 2: "\<forall>g n. \<not> in_grid cols rows (nx n, ny n) \<longrightarrow> in_bounds_unvisited cols rows g n = Inr False"
    by (auto simp: in_bounds_unvisited_def in_grid_def)
  from carveMaze_result[OF assms, of seed entry exit]
  have 3: "carveMaze cols rows seed entry exit = Inl TypeError \<longleftrightarrow>
            \<not> in_grid cols rows (fst (entryFinal entry)) \<or>
            \<not> in_grid cols rows (fst (exitFinal cols rows exit))"
    by (auto split: if_splits)
  from 1 2 3 run(2) show ?thesis by blast
qed

theorem carving_loop_stays_in_bounds_witness:
  "(\<exists>g. carve_tree 2 2 0 = Inr g) \<and>
   carveMaze 2 2 0 None (Some \<lparr>pt_x = Some 2, pt_y = None, pt_side = None\<rparr>) = Inl TypeError"
  using carving_loop_stays_in_bounds[of 2 2 0 None "Some \<lparr>pt_x = Some 2, pt_y = None, pt_side = None\<rparr>"]
  by (simp add: in_grid_def entryFinal_def exitFinal_def)

text \<open>
  An entry or exit whose side faces the outer boundary: the side has no cell behind it.
\<close>

definition outward :: "int \<Rightarrow> int \<Rightarrow> pos \<times> side \<Rightarrow> bool" where
  "outward cols rows ps =
     (\<forall>d \<in> set dirs. wall d = snd ps \<longrightarrow> \<not> in_grid cols rows (step_to (fst ps) d))"

text \<open>
  C4, as stated, fails: with \<open>cols = rows = 2\<close>, seed 0 and the entry
  \<^verbatim>\<open>{ x: 0, y: 0, side: "bottom" }\<close>, the loop leaves the wall between \<open>(0, 0)\<close> and \<open>(0, 1)\<close>
  closed, and the entry step clears the bottom flag of \<open>(0, 0)\<close> only: the top flag of
  \<open>(0, 1)\<close> stays set.
\<close>

theorem wall_copies_disagree_after_inward_entry:
  "carveMaze 2 2 0 (Some \<lparr>pt_x = Some 0, pt_y = Some 0, pt_side = Some Bottom\<rparr>) None
     = Inr [[vcell True False False True, vcell True True False False],
            [vcell True False True True, vcell False True False False]]
   \<and> in_grid 2 2 (0, 0) \<and> in_grid 2 2 (step_to (0, 0) \<lparr>dx = 0, dy = 1, wall = Bottom, opp = Top\<rparr>)
   \<and> \<not> wall_at [[vcell True False False True, vcell True True False False],
                  [vcell True False True True, vcell False True False False]] (0, 0) Bottom
   \<and> wall_at [[vcell True False False True, vcell True True False False],
              [vcell True False True True, vcell False True False False]]
        (step_to (0, 0) \<lparr>dx = 0, dy = 1, wall = Bottom, opp = Top\<rparr>) Top
   \<and> \<not> walls_agree 2 2 [[vcell True False False True, vcell True True False False],
                         [vcell True False True True, vcell False True False False]]"
proof -
  let ?G = "[[vcell True False False True, vcell True True False False],
            [vcell True False True True, vcell False True False False]]"
  let ?d = "\<lparr>dx = 0, dy = 1, wall = Bottom, opp = Top\<rparr>"
  have d: "?d \<in> set dirs" by (simp add: dirs_def)
  have g: "in_grid 2 2 (0, 0)" "in_grid 2 2 (step_to (0, 0) ?d)"
    by (simp_all add: in_grid_def step_to_def)
  have w: "\<not> wall_at ?G (0, 0) Bottom" "wall_at ?G (step_to (0, 0) ?d) Top"
    by (simp_all add: wall_at_def cell_of_def step_to_def)
  have "\<not> walls_agree 2 2 ?G"
  proof
    assume "walls_agree 2 2 ?G"
    then have "wall_at ?G (0, 0) (wall ?d) = wall_at ?G (step_to (0, 0) ?d) (opp ?d)"
      using d g unfolding walls_agree_def by blast
    then show False using w by simp
  qed
  then show ?thesis using carveMaze_2_2_0_inward g w by simp
qed

text \<open>
  C4, amended. For positive \<open>cols\<close> and \<open>rows\<close>: in the grid the loop produces, the two copies
  of every shared wall agree. In the grid \<^verbatim>\<open>carveMaze\<close> returns they agree for every pair of
  adjacent cells whose shared wall is not the one named by the resolved entry or exit; so
  they agree everywhere when the entry and the exit name sides that face the outer boundary,
  as the defaults do.
\<close>

theorem wall_copies_agree_except_openings:
  assumes "0 < cols" and "0 < rows"
  shows "(\<exists>gt. carve_tree cols rows seed = Inr gt \<and> walls_agree cols rows gt) \<and>
    (\<forall>g. carveMaze cols rows seed entry exit = Inr g \<longrightarrow>
       (\<forall>p. \<forall>d \<in> set dirs. in_grid cols rows p \<longrightarrow> in_grid cols rows (step_to p d) \<longrightarrow>
           (p, wall d) \<notin> {entryFinal entry, exitFinal cols rows exit} \<longrightarrow>
           (step_to p d, opp d) \<notin> {entryFinal entry, exitFinal cols rows exit} \<longrightarrow>
           wall_at g p (wall d) = wall_at g (step_to p d) (opp d))) \<and>
    (\<forall>g. carveMaze cols rows seed entry exit = Inr g \<longrightarrow>
       outward cols rows (entryFinal entry) \<longrightarrow> outward cols rows (exitFinal cols rows exit) \<longrightarrow>
       walls_agree cols rows g)"
proof -
  from carveMaze_result[OF assms, of seed entry exit] obtain gt where
    gt: "carve_tree cols rows seed = Inr gt" "walls_agree cols rows gt"
    and res: "if in_grid cols rows (fst (entryFinal entry)) \<and> in_grid cols rows (fst (exitFinal cols rows exit))
      then \<exists>g. carveMaze cols rows seed entry exit = Inr g \<and> has_shape cols rows g \<and>
             (\<forall>q t. in_grid cols rows q \<longrightarrow>
                wall_at g q t = (wall_at gt q t \<and> (q, t) \<noteq> entryFinal entry
                                   \<and> (q, t) \<noteq> exitFinal cols rows exit))
      else carveMaze cols rows seed entry exit = Inl TypeError"
    by blast
  have walls: "wall_at g q t = (wall_at gt q t \<and> (q, t) \<noteq> entryFinal entry
                                   \<and> (q, t) \<noteq> exitFinal cols rows exit)"
    if "carveMaze cols rows seed entry exit = Inr g" "in_grid cols rows q" for g q t
  proof -
    have "in_grid cols rows (fst (entryFinal entry)) \<and> in_grid cols rows (fst (exitFinal cols rows exit))"
      using res that(1) by (rule_tac ccontr) simp
    then obtain g' where "carveMaze cols rows seed entry exit = Inr g'"
      and w: "\<forall>q t. in_grid cols rows q \<longrightarrow>
                wall_at g' q t = (wall_at gt q t \<and> (q, t) \<noteq> entryFinal entry
                                   \<and> (q, t) \<noteq> exitFinal cols rows exit)"
      using res by (simp del: split_paired_All) blast
    then have "g' = g" using that(1) by simp
    then show ?thesis using w that(2) by blast
  qed
  have main: "wall_at g p (wall d) = wall_at g (step_to p d) (opp d)"
    if "carveMaze cols rows seed entry exit = Inr g" "d \<in> set dirs" "in_grid cols rows p"
      "in_grid cols rows (step_to p d)"
      "(p, wall d) \<notin> {entryFinal entry, exitFinal cols rows exit}"
      "(step_to p d, opp d) \<notin> {entryFinal entry, exitFinal cols rows exit}" for g p d
  proof -
    have "wall_at gt p (wall d) = wall_at gt (step_to p d) (opp d)"
      using gt(2) that(2,3,4) unfolding walls_agree_def by blast
    then show ?thesis using walls[OF that(1,3)] walls[OF that(1,4)] that(5,6) by simp
  qed
  have out: "(p, wall d) \<noteq> ps \<and> (step_to p d, opp d) \<noteq> ps"
    if "outward cols rows ps" "d \<in> set dirs" "in_grid cols rows p" "in_grid cols rows (step_to p d)"
    for ps p d
  proof
    show "(p, wall d) \<noteq> ps" using that unfolding outward_def by auto
    show "(step_to p d, opp d) \<noteq> ps"
    proof
      assume eq: "(step_to p d, opp d) = ps"
      from dirs_reverse[OF that(2)] obtain d' where
        d': "d' \<in> set dirs" "wall d' = opp d" "opp d' = wall d" by blast
      have "step_to (step_to p d) d' = p" using dirs_wall_opp[OF d'(1) that(2) d'(2), of p] by simp
      then show False using that(1,3) d' eq unfolding outward_def by auto
    qed
  qed
  have agree: "walls_agree cols rows g"
    if "carveMaze cols rows seed entry exit = Inr g" "outward cols rows (entryFinal entry)"
      "outward cols rows (exitFinal cols rows exit)" for g
    unfolding walls_agree_def
  proof (intro allI ballI impI)
    fix p d
    assume d: "d \<in> set dirs" and p: "in_grid cols rows p" and q: "in_grid cols rows (step_to p d)"
    show "wall_at g p (wall d) = wall_at g (step_to p d) (opp d)"
      using main[OF that(1) d p q] out[OF that(2) d p q] out[OF that(3) d p q] by simp
  qed
  from gt main agree show ?thesis by blast
qed

theorem wall_copies_agree_except_openings_witness:
  "walls_agree 2 2 [[vcell False False True True, vcell True True False False],
                    [vcell True False True True, vcell False True False False]]"
proof -
  have "outward 2 2 (entryFinal None)" "outward 2 2 (exitFinal 2 2 None)"
    by (simp_all add: outward_def entryFinal_def exitFinal_def dirs_def step_to_def in_grid_def)
  then show ?thesis
    using wall_copies_agree_except_openings[of 2 2 0 None None] carveMaze_2_2_0_default
    by simp
qed

text \<open>
  C5. The resolved entry is \<open>(0, 0)\<close>, top, and the resolved exit \<open>(cols - 1, rows - 1)\<close>,
  bottom, when the point is absent; each absent field of a given point is replaced by its
  default, independently of the other fields. In every grid \<^verbatim>\<open>carveMaze\<close> returns, the named
  wall of the resolved entry cell and of the resolved exit cell is open, for every seed; and
  \<^verbatim>\<open>carveMaze\<close> returns a grid whenever both resolved cells are in a grid of positive size.
\<close>

theorem entry_and_exit_walls_open:
  "entryFinal entry =
     (case entry of
        None \<Rightarrow> ((0, 0), Top)
      | Some e \<Rightarrow> ((case pt_x e of None \<Rightarrow> 0 | Some v \<Rightarrow> v,
                    case pt_y e of None \<Rightarrow> 0 | Some v \<Rightarrow> v),
                   case pt_side e of None \<Rightarrow> Top | Some v \<Rightarrow> v))
   \<and> exitFinal cols rows exit =
     (case exit of
        None \<Rightarrow> ((cols - 1, rows - 1), Bottom)
      | Some e \<Rightarrow> ((case pt_x e of None \<Rightarrow> cols - 1 | Some v \<Rightarrow> v,
                    case pt_y e of None \<Rightarrow> rows - 1 | Some v \<Rightarrow> v),
                   case pt_side e of None \<Rightarrow> Bottom | Some v \<Rightarrow> v))
   \<and> (\<forall>g. carveMaze cols rows seed entry exit = Inr g \<longrightarrow>
         \<not> wall_at g (fst (entryFinal entry)) (snd (entryFinal entry)) \<and>
         \<not> wall_at g (fst (exitFinal cols rows exit)) (snd (exitFinal cols rows exit)))
   \<and> (0 < cols \<longrightarrow> 0 < rows \<longrightarrow> in_grid cols rows (fst (entryFinal entry)) \<longrightarrow>
        in_grid cols rows (fst (exitFinal cols rows exit)) \<longrightarrow>
        (\<exists>g. carveMaze cols rows seed entry exit = Inr g))"
proof -
  have 1: "entryFinal entry =
     (case entry of
        None \<Rightarrow> ((0, 0), Top)
      | Some e \<Rightarrow> ((case pt_x e of None \<Rightarrow> 0 | Some v \<Rightarrow> v,
                    case pt_y e of None \<Rightarrow> 0 | Some v \<Rightarrow> v),
                   case pt_side e of None \<Rightarrow> Top | Some v \<Rightarrow> v))"
    by (simp add: entryFinal_def split: option.splits)
  have 2: "exitFinal cols rows exit =
     (case exit of
        None \<Rightarrow> ((cols - 1, rows - 1), Bottom)
      | Some e \<Rightarrow> ((case pt_x e of None \<Rightarrow> cols - 1 | Some v \<Rightarrow> v,
                    case pt_y e of None \<Rightarrow> rows - 1 | Some v \<Rightarrow> v),
                   case pt_side e of None \<Rightarrow> Bottom | Some v \<Rightarrow> v))"
    by (simp add: exitFinal_def split: option.splits)
  have 3: "\<forall>g. carveMaze cols rows seed entry exit = Inr g \<longrightarrow>
         \<not> wall_at g (fst (entryFinal entry)) (snd (entryFinal entry)) \<and>
         \<not> wall_at g (fst (exitFinal cols rows exit)) (snd (exitFinal cols rows exit))"
    using carveMaze_opens by blast
  have 4: "0 < cols \<longrightarrow> 0 < rows \<longrightarrow> in_grid cols rows (fst (entryFinal entry)) \<longrightarrow>
        in_grid cols rows (fst (exitFinal cols rows exit)) \<longrightarrow>
        (\<exists>g. carveMaze cols rows seed entry exit = Inr g)"
  proof (intro impI)
    assume a: "0 < cols" "0 < rows" "in_grid cols rows (fst (entryFinal entry))"
      "in_grid cols rows (fst (exitFinal cols rows exit))"
    from carveMaze_result[OF a(1,2), of seed entry exit] a(3,4)
    show "\<exists>g. carveMaze cols rows seed entry exit = Inr g" by auto
  qed
  from 1 2 3 4 show ?thesis by (intro conjI)
qed

theorem entry_and_exit_walls_open_witness:
  "exitFinal 2 2 (Some \<lparr>pt_x = None, pt_y = Some 0, pt_side = None\<rparr>) = ((1, 0), Bottom)
   \<and> \<not> wall_at [[vcell False False True True, vcell True True False False],
                  [vcell True False True True, vcell False True False False]] (0, 0) Top
   \<and> \<not> wall_at [[vcell False False True True, vcell True True False False],
                  [vcell True False True True, vcell False True False False]] (1, 1) Bottom"
  using entry_and_exit_walls_open[of None 2 2 None 0]
    entry_and_exit_walls_open[of None 2 2 "Some \<lparr>pt_x = None, pt_y = Some 0, pt_side = None\<rparr>" 0]
    carveMaze_2_2_0_default
  by (simp add: entryFinal_def exitFinal_def)

section \<open>Properties of the controller\<close>

lemma set_cell_order: "set (cell_order cols rows) = {p. in_grid cols rows p}"
  by (auto simp: cell_order_def in_grid_def)

lemma draw_cells_total:
  "(\<forall>p \<in> set ps. get_cell g p = Inr (cell_of g p)) \<Longrightarrow>
     draw_cells fl cell t cols rows g ps
       = (concat (map (\<lambda>p. cell_rects fl cell t cols rows p (walls (cell_of g p))) ps), None)"
  by (induction ps) auto

lemma draw_shape:
  assumes "has_shape (opt_cols opts) (opt_rows opts) g"
  shows "draw fl e opts g =
     ([SetSize (measureSquare e opts * max 1 \<lfloor>if devicePixelRatio e = 0 then 1 else devicePixelRatio e\<rfloor>)
         (measureSquare e opts * max 1 \<lfloor>if devicePixelRatio e = 0 then 1 else devicePixelRatio e\<rfloor>),
       SetTransform (max 1 \<lfloor>if devicePixelRatio e = 0 then 1 else devicePixelRatio e\<rfloor>),
       ClearRect 0 0 (measureSquare e opts) (measureSquare e opts),
       FillStyle (opt_bgColor opts),
       FillRect 0 0 (measureSquare e opts) (measureSquare e opts),
       FillStyle (opt_wallColor opts)] @
      concat (map (\<lambda>p. cell_rects fl (cell_size fl (measureSquare e opts) (opt_cols opts))
                         (thickness fl (cell_size fl (measureSquare e opts) (opt_cols opts))
                            (opt_lineWidthRatio opts))
                         (opt_cols opts) (opt_rows opts) p (walls (cell_of g p)))
                (cell_order (opt_cols opts) (opt_rows opts))),
      None)"
proof -
  have "\<forall>p \<in> set (cell_order (opt_cols opts) (opt_rows opts)). get_cell g p = Inr (cell_of g p)"
    using get_cell_shape[OF assms] by (simp add: set_cell_order)
  from draw_cells_total[OF this] show ?thesis by (simp add: draw_def Let_def)
qed

lemma distinct_cell_order: "distinct (cell_order cols rows)"
proof (cases "0 < cols")
  case True
  have inj: "inj_on (\<lambda>y. map (\<lambda>x. (x, y)) [0..cols - 1]) (set [0..rows - 1])"
  proof (rule inj_onI)
    fix y y' :: int
    assume "map (\<lambda>x. (x, y)) [0..cols - 1] = map (\<lambda>x. (x, y')) [0..cols - 1]"
    then have "set (map (\<lambda>x. (x, y)) [0..cols - 1]) = set (map (\<lambda>x. (x, y')) [0..cols - 1])"
      by (rule arg_cong)
    moreover have "(0, y) \<in> set (map (\<lambda>x. (x, y)) [0..cols - 1])" using True by simp
    ultimately have "(0, y) \<in> set (map (\<lambda>x. (x, y')) [0..cols - 1])" by blast
    then show "y = y'" by auto
  qed
  show ?thesis
    unfolding cell_order_def
  proof (rule distinct_concat)
    show "distinct (map (\<lambda>y. map (\<lambda>x. (x, y)) [0..cols - 1]) [0..rows - 1])"
      using inj by (simp add: distinct_map)
  next
    fix ys assume "ys \<in> set (map (\<lambda>y. map (\<lambda>x. (x, y)) [0..cols - 1]) [0..rows - 1])"
    then show "distinct ys" by (auto simp: distinct_map inj_on_def)
  next
    fix ys zs
    assume "ys \<in> set (map (\<lambda>y. map (\<lambda>x. (x, y)) [0..cols - 1]) [0..rows - 1])"
      "zs \<in> set (map (\<lambda>y. map (\<lambda>x. (x, y)) [0..cols - 1]) [0..rows - 1])" "ys \<noteq> zs"
    then show "set ys \<inter> set zs = {}" by auto
  qed
next
  case False
  then have "[0..cols - 1] = []" by simp
  then have "set (cell_order cols rows) = {}" by (simp add: cell_order_def)
  then show ?thesis by simp
qed

lemma length_cell_order: "length (cell_order cols rows) = nat cols * nat rows"
  by (simp add: cell_order_def length_concat comp_def sum_list_triv)

lemma draw_cells_set:
  assumes "has_shape (opt_cols opts) (opt_rows opts) g"
  shows "set (drop 6 (fst (draw fl e opts g))) =
     (\<Union>p \<in> {p. in_grid (opt_cols opts) (opt_rows opts) p}.
        set (cell_rects fl (cell_size fl (measureSquare e opts) (opt_cols opts))
               (thickness fl (cell_size fl (measureSquare e opts) (opt_cols opts))
                  (opt_lineWidthRatio opts))
               (opt_cols opts) (opt_rows opts) p (walls (cell_of g p))))"
  using draw_shape[OF assms, of fl e] by (simp add: set_cell_order)

lemma cell_rects_emitted:
  assumes "has_shape (opt_cols opts) (opt_rows opts) g"
    and "0 \<le> x" and "x < opt_cols opts" and "0 \<le> y" and "y < opt_rows opts"
  shows "set (cell_rects fl (cell_size fl (measureSquare e opts) (opt_cols opts))
               (thickness fl (cell_size fl (measureSquare e opts) (opt_cols opts))
                  (opt_lineWidthRatio opts))
               (opt_cols opts) (opt_rows opts) (x, y) (walls (g ! nat y ! nat x)))
           \<subseteq> set (drop 6 (fst (draw fl e opts g)))"
proof -
  have "in_grid (opt_cols opts) (opt_rows opts) (x, y)"
    using assms(2-5) by (simp add: in_grid_def)
  then show ?thesis
    unfolding draw_cells_set[OF assms(1)] by (auto simp: cell_of_def simp del: split_paired_All)
qed

lemma emitted_is_cell_rect:
  assumes "has_shape (opt_cols opts) (opt_rows opts) g"
    and "r \<in> set (drop 6 (fst (draw fl e opts g)))"
  shows "\<exists>x y. 0 \<le> x \<and> x < opt_cols opts \<and> 0 \<le> y \<and> y < opt_rows opts \<and>
     r \<in> set (cell_rects fl (cell_size fl (measureSquare e opts) (opt_cols opts))
               (thickness fl (cell_size fl (measureSquare e opts) (opt_cols opts))
                  (opt_lineWidthRatio opts))
               (opt_cols opts) (opt_rows opts) (x, y) (walls (g ! nat y ! nat x)))"
proof -
  from assms(2) obtain p where p: "in_grid (opt_cols opts) (opt_rows opts) p"
    and r: "r \<in> set (cell_rects fl (cell_size fl (measureSquare e opts) (opt_cols opts))
               (thickness fl (cell_size fl (measureSquare e opts) (opt_cols opts))
                  (opt_lineWidthRatio opts))
               (opt_cols opts) (opt_rows opts) p (walls (cell_of g p)))"
    unfolding draw_cells_set[OF assms(1)] by blast
  obtain x y where xy: "p = (x, y)" by (cases p)
  show ?thesis
    using p r unfolding xy by (intro exI[of _ x] exI[of _ y]) (simp add: in_grid_def cell_of_def)
qed


lemma wall_rects_emitted:
  assumes "has_shape (opt_cols opts) (opt_rows opts) g"
    and "0 \<le> x" and "x < opt_cols opts" and "0 \<le> y" and "y < opt_rows opts"
    and cs: "cs = cell_size fl (measureSquare e opts) (opt_cols opts)"
    and th: "th = thickness fl cs (opt_lineWidthRatio opts)"
  shows "(top_w (walls (g ! nat y ! nat x)) \<longrightarrow>
            FillRect \<lfloor>fl (of_int x * cs)\<rfloor> \<lfloor>fl (of_int y * cs)\<rfloor> \<lceil>cs\<rceil> th
              \<in> set (drop 6 (fst (draw fl e opts g))))
       \<and> (left_w (walls (g ! nat y ! nat x)) \<longrightarrow>
            FillRect \<lfloor>fl (of_int x * cs)\<rfloor> \<lfloor>fl (of_int y * cs)\<rfloor> th \<lceil>cs\<rceil>
              \<in> set (drop 6 (fst (draw fl e opts g))))
       \<and> (x = opt_cols opts - 1 \<longrightarrow> right_w (walls (g ! nat y ! nat x)) \<longrightarrow>
            FillRect (\<lfloor>fl (of_int x * cs)\<rfloor> + \<lceil>cs\<rceil> - th) \<lfloor>fl (of_int y * cs)\<rfloor> th \<lceil>cs\<rceil>
              \<in> set (drop 6 (fst (draw fl e opts g))))
       \<and> (y = opt_rows opts - 1 \<longrightarrow> bottom_w (walls (g ! nat y ! nat x)) \<longrightarrow>
            FillRect \<lfloor>fl (of_int x * cs)\<rfloor> (\<lfloor>fl (of_int y * cs)\<rfloor> + \<lceil>cs\<rceil> - th) \<lceil>cs\<rceil> th
              \<in> set (drop 6 (fst (draw fl e opts g))))"
proof -
  have sub: "set (cell_rects fl cs th (opt_cols opts) (opt_rows opts) (x, y)
      (walls (g ! nat y ! nat x))) \<subseteq> set (drop 6 (fst (draw fl e opts g)))"
    unfolding th cs by (rule cell_rects_emitted[OF assms(1-5)])
  have "top_w (walls (g ! nat y ! nat x)) \<Longrightarrow>
      FillRect \<lfloor>fl (of_int x * cs)\<rfloor> \<lfloor>fl (of_int y * cs)\<rfloor> \<lceil>cs\<rceil> th
        \<in> set (cell_rects fl cs th (opt_cols opts) (opt_rows opts) (x, y) (walls (g ! nat y ! nat x)))"
    by (simp add: cell_rects_def Let_def)
  moreover have "left_w (walls (g ! nat y ! nat x)) \<Longrightarrow>
      FillRect \<lfloor>fl (of_int x * cs)\<rfloor> \<lfloor>fl (of_int y * cs)\<rfloor> th \<lceil>cs\<rceil>
        \<in> set (cell_rects fl cs th (opt_cols opts) (opt_rows opts) (x, y) (walls (g ! nat y ! nat x)))"
    by (simp add: cell_rects_def Let_def)
  moreover have "x = opt_cols opts - 1 \<Longrightarrow> right_w (walls (g ! nat y ! nat x)) \<Longrightarrow>
      FillRect (\<lfloor>fl (of_int x * cs)\<rfloor> + \<lceil>cs\<rceil> - th) \<lfloor>fl (of_int y * cs)\<rfloor> th \<lceil>cs\<rceil>
        \<in> set (cell_rects fl cs th (opt_cols opts) (opt_rows opts) (x, y) (walls (g ! nat y ! nat x)))"
    by (simp add: cell_rects_def Let_def)
  moreover have "y = opt_rows opts - 1 \<Longrightarrow> bottom_w (walls (g ! nat y ! nat x)) \<Longrightarrow>
      FillRect \<lfloor>fl (of_int x * cs)\<rfloor> (\<lfloor>fl (of_int y * cs)\<rfloor> + \<lceil>cs\<rceil> - th) \<lceil>cs\<rceil> th
        \<in> set (cell_rects fl cs th (opt_cols opts) (opt_rows opts) (x, y) (walls (g ! nat y ! nat x)))"
    by (simp add: cell_rects_def Let_def)
  ultimately show ?thesis using sub by blast
qed

lemma cell_order_cells:
  "set (cell_order cols rows) = {(x, y). 0 \<le> x \<and> x < cols \<and> 0 \<le> y \<and> y < rows}"
  by (auto simp: set_cell_order in_grid_def)

lemma assign_idem: "assign (assign opts p) p = assign opts p"
  by (simp add: assign_def split: option.splits)

lemma to_uint32_mod:
  "trunc seed' mod 2 ^ 32 = trunc seed mod 2 ^ 32 \<Longrightarrow> to_uint32 seed' = to_uint32 seed"
  by (simp add: to_uint32_def word_of_int_eq_iff take_bit_eq_mod)

lemma carveMaze_depends_on:
  assumes "trunc seed' mod 2 ^ 32 = trunc seed mod 2 ^ 32" and "entryFinal entry' = entryFinal entry"
    and "exitFinal cols rows exit' = exitFinal cols rows exit"
  shows "carveMaze cols rows seed' entry' exit' = carveMaze cols rows seed entry exit"
proof -
  have "carve_init cols rows seed' = carve_init cols rows seed"
    using to_uint32_mod[OF assms(1)] by (simp add: carve_init_def createSeededRandom_def)
  then have "carve_tree cols rows seed' = carve_tree cols rows seed"
    by (simp add: carve_tree_def)
  then show ?thesis using assms(2,3) by (simp add: carveMaze_def)
qed

lemma regenerate_twice:
  "w_grid (fst (regenerate fl e p (fst (regenerate fl e' p w)))) = w_grid (fst (regenerate fl e' p w))"
  by (cases "carve_opts (w_store w) (assign (w_opts w) p)")
    (simp_all add: regenerate_def Let_def assign_idem)


lemma after_mutation_frame:
  "w_opts (after_mutation m w) = w_opts w \<and> w_grid (after_mutation m w) = w_grid w \<and>
   redraw fl e (after_mutation m w) = (after_mutation m w, snd (redraw fl e w))"
  by (simp add: after_mutation_def redraw_def)

subsection \<open>Examples: a 2 by 2 widget with seed 0\<close>

definition example_options :: partial_options where
  "example_options = no_options\<lparr>p_cols := Some 2, p_rows := Some 2, p_seed := Some 0\<rparr>"

definition example_widget :: widget where
  "example_widget =
     \<lparr>w_store = [\<lparr>pt_x = Some 0, pt_y = Some 0, pt_side = Some Top\<rparr>,
                 \<lparr>pt_x = None, pt_y = None, pt_side = Some Bottom\<rparr>],
      w_opts = assign (defaults 0 1) example_options,
      w_grid = [[vcell False False True True, vcell True True False False],
                [vcell True False True True, vcell False True False False]]\<rparr>"

lemma has_shape_2_2: "has_shape 2 2 [[a, b], [c, d]]"
  by (simp add: has_shape_def)

lemma example_carve:
  "carve_opts (w_store example_widget) (w_opts example_widget) = Inr (w_grid example_widget)"
proof -
  have "carve_opts (w_store example_widget) (w_opts example_widget)
      = carveMaze 2 2 0 (Some \<lparr>pt_x = Some 0, pt_y = Some 0, pt_side = Some Top\<rparr>)
          (Some \<lparr>pt_x = None, pt_y = None, pt_side = Some Bottom\<rparr>)"
    by (simp add: carve_opts_def example_widget_def example_options_def no_options_def
        assign_def defaults_def deref_def)
  also have "\<dots> = carveMaze 2 2 0 None None"
    by (rule carveMaze_depends_on) (simp_all add: entryFinal_def exitFinal_def)
  finally show ?thesis by (simp add: carveMaze_2_2_0_default example_widget_def)
qed

lemma example_created:
  "\<exists>ops. createMazeWidget fl e True example_options [] = Inr (example_widget, ops)"
proof -
  let ?opts = "assign (defaults 0 1) example_options"
  have c: "carve_opts [\<lparr>pt_x = Some 0, pt_y = Some 0, pt_side = Some Top\<rparr>,
                       \<lparr>pt_x = None, pt_y = None, pt_side = Some Bottom\<rparr>] ?opts
      = Inr (w_grid example_widget)"
    using example_carve by (simp add: example_widget_def)
  have "has_shape (opt_cols ?opts) (opt_rows ?opts) (w_grid example_widget)"
    by (simp add: example_widget_def example_options_def no_options_def assign_def defaults_def
        has_shape_2_2)
  from draw_shape[OF this, of fl e] obtain ops where
    "draw fl e ?opts (w_grid example_widget) = (ops, None)" by blast
  then show ?thesis using c by (simp add: createMazeWidget_def alloc_def example_widget_def)
qed

lemma draw_cells_throws:
  "p \<in> set ps \<Longrightarrow> get_cell g p = Inl err \<Longrightarrow> \<exists>err'. snd (draw_cells fl cell t cols rows g ps) = Some err'"
  by (induction ps) (auto split: sum.splits prod.splits)

text \<open>
  After \<^verbatim>\<open>setOptions({ cols: 10 })\<close> the grid still has two columns: the drawing that
  \<^verbatim>\<open>setOptions\<close> starts throws when it reaches column 2.
\<close>

lemma setOptions_wider_throws:
  "snd (snd (setOptions fl e (no_options\<lparr>p_cols := Some 10\<rparr>) example_widget)) = Some TypeError"
proof -
  let ?opts = "assign (w_opts example_widget) (no_options\<lparr>p_cols := Some 10\<rparr>)"
  have o: "opt_cols ?opts = 10" "opt_rows ?opts = 2"
    by (simp_all add: assign_def no_options_def example_widget_def example_options_def defaults_def)
  have "(2, 0) \<in> set (cell_order 10 2)"
    by (simp add: set_cell_order in_grid_def)
  moreover have "get_cell (w_grid example_widget) (2, 0) = Inl TypeError"
    by (simp add: get_cell_def example_widget_def)
  ultimately obtain err where
    "snd (draw_cells fl (cell_size fl (measureSquare e ?opts) 10)
       (thickness fl (cell_size fl (measureSquare e ?opts) 10) (opt_lineWidthRatio ?opts))
       10 2 (w_grid example_widget) (cell_order 10 2)) = Some err"
    using draw_cells_throws by blast
  then have "snd (draw fl e ?opts (w_grid example_widget)) = Some err"
    by (auto simp: draw_def Let_def o split: prod.splits)
  then show ?thesis by (cases err) (simp add: setOptions_def Let_def)
qed





lemma cell_order_2_2: "cell_order 2 2 = [(0, 0), (1, 0), (0, 1), (1, 1)]"
  by (simp add: cell_order_def upto.simps)

lemma example_draw_options:
  "opt_cols (w_opts example_widget) = 2" "opt_rows (w_opts example_widget) = 2"
  "opt_lineWidthRatio (w_opts example_widget) = 0.25"
  "measureSquare \<lparr>rect_width = 200, rect_height = 200, devicePixelRatio = 1\<rparr>
     (w_opts example_widget) = 200"
  by (simp_all add: example_widget_def example_options_def no_options_def assign_def defaults_def
      measureSquare_def)

subsection \<open>Determinism, options, drawing and snapshots\<close>

text \<open>
  C1. Two invocations of \<^verbatim>\<open>carveMaze\<close> with identical arguments give identical results (the
  same grid, so the same wall flags in every cell, or the same exception): the generator and
  the grid are created inside the call, and nothing else is read. The result even depends on
  the seed only through its integer part modulo \<open>2^32\<close> and on the entry and exit only through the
  resolved points; and regenerating twice with the same options gives the same grid, so no
  state of the generator survives a call.
\<close>

theorem carveMaze_deterministic:
  "(cols' = cols \<longrightarrow> rows' = rows \<longrightarrow> seed' = seed \<longrightarrow> entry' = entry \<longrightarrow> exit' = exit \<longrightarrow>
      carveMaze cols' rows' seed' entry' exit' = carveMaze cols rows seed entry exit)
   \<and> (trunc seed' mod 2 ^ 32 = trunc seed mod 2 ^ 32 \<longrightarrow> entryFinal entry' = entryFinal entry \<longrightarrow>
      exitFinal cols rows exit' = exitFinal cols rows exit \<longrightarrow>
      carveMaze cols rows seed' entry' exit' = carveMaze cols rows seed entry exit)
   \<and> w_grid (fst (regenerate fl e p (fst (regenerate fl e' p w))))
       = w_grid (fst (regenerate fl e' p w))"
  using carveMaze_depends_on[of seed' seed entry' entry cols rows exit' exit]
    regenerate_twice[of fl e p e' w]
  by simp

theorem carveMaze_deterministic_witness:
  "carveMaze 2 2 (4294967296 + 1 / 2) (Some \<lparr>pt_x = None, pt_y = Some 0, pt_side = None\<rparr>) None
     = Inr [[vcell False False True True, vcell True True False False],
            [vcell True False True True, vcell False True False False]]"
  using carveMaze_deterministic[of 2 2 2 2 "4294967296 + 1 / 2" 0
      "Some \<lparr>pt_x = None, pt_y = Some 0, pt_side = None\<rparr>" None None None]
    carveMaze_2_2_0_default
  by (simp add: entryFinal_def trunc_def)



text \<open>
  C7. The rendering pass computes \<open>cell = cssSize / cols\<close> and
  \<open>t = max 1 (ceil (cell * lineWidthRatio))\<close>, each product and quotient rounded by the
  rounding \<open>fl\<close> of the number format; with \<open>cols = 5\<close>, \<open>cssSize = 500\<close> and ratio \<open>0.25\<close> this
  is \<open>cell = 100\<close> and \<open>t = 25\<close> (for every rounding that leaves 100 and 25 as they are). For
  a cell \<open>(x, y)\<close> with origin \<open>(floor (x * cell), floor (y * cell))\<close> and extent \<open>ceil cell\<close> it
  emits the top rectangle and the left rectangle when those walls are present, the right
  rectangle only when \<open>x = cols - 1\<close> and the bottom rectangle only when \<open>y = rows - 1\<close>. On a
  grid of the shape the options give, \<^verbatim>\<open>draw\<close> does not throw and emits, after the
  background, these rectangles for every cell, row by row. The two loops visit every cell
  \<open>(i, j)\<close> with \<open>0 \<le> i < cols\<close> and \<open>0 \<le> j < rows\<close>, each once. So for every such cell the
  rectangles of \<^verbatim>\<open>grid[j][i].walls\<close> are among the calls of \<^verbatim>\<open>draw\<close>: the top and the left
  rectangle when that wall is present, the right one in the last column and the bottom one in
  the last row; and every call after the background is a rectangle of one of these cells.
\<close>

theorem draw_geometry:
  "(cols \<noteq> 0 \<longrightarrow> cell_size fl cssSize cols = fl (of_int cssSize / of_int cols))
   \<and> thickness fl cell ratio = max 1 \<lceil>fl (cell * ratio)\<rceil>
   \<and> (fl 100 = 100 \<longrightarrow> fl 25 = 25 \<longrightarrow>
        cell_size fl 500 5 = 100 \<and> thickness fl (cell_size fl 500 5) 0.25 = 25)
   \<and> cell_rects fl cell t cols rows (x, y) w =
        (if top_w w then [FillRect \<lfloor>fl (of_int x * cell)\<rfloor> \<lfloor>fl (of_int y * cell)\<rfloor> \<lceil>cell\<rceil> t] else []) @
        (if left_w w then [FillRect \<lfloor>fl (of_int x * cell)\<rfloor> \<lfloor>fl (of_int y * cell)\<rfloor> t \<lceil>cell\<rceil>] else []) @
        (if x = cols - 1 \<and> right_w w
         then [FillRect (\<lfloor>fl (of_int x * cell)\<rfloor> + \<lceil>cell\<rceil> - t) \<lfloor>fl (of_int y * cell)\<rfloor> t \<lceil>cell\<rceil>]
         else []) @
        (if y = rows - 1 \<and> bottom_w w
         then [FillRect \<lfloor>fl (of_int x * cell)\<rfloor> (\<lfloor>fl (of_int y * cell)\<rfloor> + \<lceil>cell\<rceil> - t) \<lceil>cell\<rceil> t]
         else [])
   \<and> (has_shape (opt_cols opts) (opt_rows opts) g \<longrightarrow>
        snd (draw fl e opts g) = None \<and>
        drop 6 (fst (draw fl e opts g)) =
          concat (map (\<lambda>p. cell_rects fl (cell_size fl (measureSquare e opts) (opt_cols opts))
                         (thickness fl (cell_size fl (measureSquare e opts) (opt_cols opts))
                            (opt_lineWidthRatio opts))
                         (opt_cols opts) (opt_rows opts) p (walls (cell_of g p)))
                    (cell_order (opt_cols opts) (opt_rows opts))))
   \<and> set (cell_order cols rows) = {(i, j). 0 \<le> i \<and> i < cols \<and> 0 \<le> j \<and> j < rows}
   \<and> distinct (cell_order cols rows)
   \<and> length (cell_order cols rows) = nat cols * nat rows
   \<and> (has_shape (opt_cols opts) (opt_rows opts) g \<longrightarrow>
        (let cs = cell_size fl (measureSquare e opts) (opt_cols opts);
             th = thickness fl cs (opt_lineWidthRatio opts);
             out = set (drop 6 (fst (draw fl e opts g)))
         in (\<forall>i j. 0 \<le> i \<longrightarrow> i < opt_cols opts \<longrightarrow> 0 \<le> j \<longrightarrow> j < opt_rows opts \<longrightarrow>
               set (cell_rects fl cs th (opt_cols opts) (opt_rows opts) (i, j)
                      (walls (g ! nat j ! nat i))) \<subseteq> out
               \<and> (top_w (walls (g ! nat j ! nat i)) \<longrightarrow>
                    FillRect \<lfloor>fl (of_int i * cs)\<rfloor> \<lfloor>fl (of_int j * cs)\<rfloor> \<lceil>cs\<rceil> th \<in> out)
               \<and> (left_w (walls (g ! nat j ! nat i)) \<longrightarrow>
                    FillRect \<lfloor>fl (of_int i * cs)\<rfloor> \<lfloor>fl (of_int j * cs)\<rfloor> th \<lceil>cs\<rceil> \<in> out)
               \<and> (i = opt_cols opts - 1 \<longrightarrow> right_w (walls (g ! nat j ! nat i)) \<longrightarrow>
                    FillRect (\<lfloor>fl (of_int i * cs)\<rfloor> + \<lceil>cs\<rceil> - th) \<lfloor>fl (of_int j * cs)\<rfloor> th \<lceil>cs\<rceil>
                      \<in> out)
               \<and> (j = opt_rows opts - 1 \<longrightarrow> bottom_w (walls (g ! nat j ! nat i)) \<longrightarrow>
                    FillRect \<lfloor>fl (of_int i * cs)\<rfloor> (\<lfloor>fl (of_int j * cs)\<rfloor> + \<lceil>cs\<rceil> - th) \<lceil>cs\<rceil> th
                      \<in> out))
            \<and> (\<forall>r \<in> out. \<exists>i j. 0 \<le> i \<and> i < opt_cols opts \<and> 0 \<le> j \<and> j < opt_rows opts \<and>
                  r \<in> set (cell_rects fl cs th (opt_cols opts) (opt_rows opts) (i, j)
                             (walls (g ! nat j ! nat i))))))"
proof -
  have 1: "cols \<noteq> 0 \<longrightarrow> cell_size fl cssSize cols = fl (of_int cssSize / of_int cols)"
    and 2: "thickness fl cell ratio = max 1 \<lceil>fl (cell * ratio)\<rceil>"
    and 3: "fl 100 = 100 \<longrightarrow> fl 25 = 25 \<longrightarrow>
        cell_size fl 500 5 = 100 \<and> thickness fl (cell_size fl 500 5) 0.25 = 25"
    by (simp_all add: cell_size_def thickness_def)
  have 4: "cell_rects fl cell t cols rows (x, y) w =
        (if top_w w then [FillRect \<lfloor>fl (of_int x * cell)\<rfloor> \<lfloor>fl (of_int y * cell)\<rfloor> \<lceil>cell\<rceil> t] else []) @
        (if left_w w then [FillRect \<lfloor>fl (of_int x * cell)\<rfloor> \<lfloor>fl (of_int y * cell)\<rfloor> t \<lceil>cell\<rceil>] else []) @
        (if x = cols - 1 \<and> right_w w
         then [FillRect (\<lfloor>fl (of_int x * cell)\<rfloor> + \<lceil>cell\<rceil> - t) \<lfloor>fl (of_int y * cell)\<rfloor> t \<lceil>cell\<rceil>]
         else []) @
        (if y = rows - 1 \<and> bottom_w w
         then [FillRect \<lfloor>fl (of_int x * cell)\<rfloor> (\<lfloor>fl (of_int y * cell)\<rfloor> + \<lceil>cell\<rceil> - t) \<lceil>cell\<rceil> t]
         else [])"
    by (simp add: cell_rects_def Let_def)
  have 5: "has_shape (opt_cols opts) (opt_rows opts) g \<longrightarrow>
        snd (draw fl e opts g) = None \<and>
        drop 6 (fst (draw fl e opts g)) =
          concat (map (\<lambda>p. cell_rects fl (cell_size fl (measureSquare e opts) (opt_cols opts))
                         (thickness fl (cell_size fl (measureSquare e opts) (opt_cols opts))
                            (opt_lineWidthRatio opts))
                         (opt_cols opts) (opt_rows opts) p (walls (cell_of g p)))
                    (cell_order (opt_cols opts) (opt_rows opts)))"
    using draw_shape[of opts g fl e] by simp
  have 6: "has_shape (opt_cols opts) (opt_rows opts) g \<longrightarrow>
        (let cs = cell_size fl (measureSquare e opts) (opt_cols opts);
             th = thickness fl cs (opt_lineWidthRatio opts);
             out = set (drop 6 (fst (draw fl e opts g)))
         in (\<forall>i j. 0 \<le> i \<longrightarrow> i < opt_cols opts \<longrightarrow> 0 \<le> j \<longrightarrow> j < opt_rows opts \<longrightarrow>
               set (cell_rects fl cs th (opt_cols opts) (opt_rows opts) (i, j)
                      (walls (g ! nat j ! nat i))) \<subseteq> out
               \<and> (top_w (walls (g ! nat j ! nat i)) \<longrightarrow>
                    FillRect \<lfloor>fl (of_int i * cs)\<rfloor> \<lfloor>fl (of_int j * cs)\<rfloor> \<lceil>cs\<rceil> th \<in> out)
               \<and> (left_w (walls (g ! nat j ! nat i)) \<longrightarrow>
                    FillRect \<lfloor>fl (of_int i * cs)\<rfloor> \<lfloor>fl (of_int j * cs)\<rfloor> th \<lceil>cs\<rceil> \<in> out)
               \<and> (i = opt_cols opts - 1 \<longrightarrow> right_w (walls (g ! nat j ! nat i)) \<longrightarrow>
                    FillRect (\<lfloor>fl (of_int i * cs)\<rfloor> + \<lceil>cs\<rceil> - th) \<lfloor>fl (of_int j * cs)\<rfloor> th \<lceil>cs\<rceil>
                      \<in> out)
               \<and> (j = opt_rows opts - 1 \<longrightarrow> bottom_w (walls (g ! nat j ! nat i)) \<longrightarrow>
                    FillRect \<lfloor>fl (of_int i * cs)\<rfloor> (\<lfloor>fl (of_int j * cs)\<rfloor> + \<lceil>cs\<rceil> - th) \<lceil>cs\<rceil> th
                      \<in> out))
            \<and> (\<forall>r \<in> out. \<exists>i j. 0 \<le> i \<and> i < opt_cols opts \<and> 0 \<le> j \<and> j < opt_rows opts \<and>
                  r \<in> set (cell_rects fl cs th (opt_cols opts) (opt_rows opts) (i, j)
                             (walls (g ! nat j ! nat i)))))"
    unfolding Let_def
  proof (intro impI conjI allI ballI)
    fix i j
    assume a: "has_shape (opt_cols opts) (opt_rows opts) g" "0 \<le> i" "i < opt_cols opts" "0 \<le> j"
      "j < opt_rows opts"
    show "set (cell_rects fl (cell_size fl (measureSquare e opts) (opt_cols opts))
               (thickness fl (cell_size fl (measureSquare e opts) (opt_cols opts))
                  (opt_lineWidthRatio opts))
               (opt_cols opts) (opt_rows opts) (i, j) (walls (g ! nat j ! nat i)))
           \<subseteq> set (drop 6 (fst (draw fl e opts g)))"
      by (rule cell_rects_emitted[OF a])
    note w = wall_rects_emitted[OF a refl refl, of fl e]
    {
      assume "top_w (walls (g ! nat j ! nat i))"
      then show "FillRect \<lfloor>fl (of_int i * cell_size fl (measureSquare e opts) (opt_cols opts))\<rfloor>
          \<lfloor>fl (of_int j * cell_size fl (measureSquare e opts) (opt_cols opts))\<rfloor>
          \<lceil>cell_size fl (measureSquare e opts) (opt_cols opts)\<rceil>
          (thickness fl (cell_size fl (measureSquare e opts) (opt_cols opts)) (opt_lineWidthRatio opts))
          \<in> set (drop 6 (fst (draw fl e opts g)))"
        using w by blast
    }
    {
      assume "left_w (walls (g ! nat j ! nat i))"
      then show "FillRect \<lfloor>fl (of_int i * cell_size fl (measureSquare e opts) (opt_cols opts))\<rfloor>
          \<lfloor>fl (of_int j * cell_size fl (measureSquare e opts) (opt_cols opts))\<rfloor>
          (thickness fl (cell_size fl (measureSquare e opts) (opt_cols opts)) (opt_lineWidthRatio opts))
          \<lceil>cell_size fl (measureSquare e opts) (opt_cols opts)\<rceil>
          \<in> set (drop 6 (fst (draw fl e opts g)))"
        using w by blast
    }
    {
      assume "i = opt_cols opts - 1" "right_w (walls (g ! nat j ! nat i))"
      then show "FillRect (\<lfloor>fl (of_int i * cell_size fl (measureSquare e opts) (opt_cols opts))\<rfloor>
            + \<lceil>cell_size fl (measureSquare e opts) (opt_cols opts)\<rceil>
            - thickness fl (cell_size fl (measureSquare e opts) (opt_cols opts)) (opt_lineWidthRatio opts))
          \<lfloor>fl (of_int j * cell_size fl (measureSquare e opts) (opt_cols opts))\<rfloor>
          (thickness fl (cell_size fl (measureSquare e opts) (opt_cols opts)) (opt_lineWidthRatio opts))
          \<lceil>cell_size fl (measureSquare e opts) (opt_cols opts)\<rceil>
          \<in> set (drop 6 (fst (draw fl e opts g)))"
        using w by blast
    }
    {
      assume "j = opt_rows opts - 1" "bottom_w (walls (g ! nat j ! nat i))"
      then show "FillRect \<lfloor>fl (of_int i * cell_size fl (measureSquare e opts) (opt_cols opts))\<rfloor>
          (\<lfloor>fl (of_int j * cell_size fl (measureSquare e opts) (opt_cols opts))\<rfloor>
            + \<lceil>cell_size fl (measureSquare e opts) (opt_cols opts)\<rceil>
            - thickness fl (cell_size fl (measureSquare e opts) (opt_cols opts)) (opt_lineWidthRatio opts))
          \<lceil>cell_size fl (measureSquare e opts) (opt_cols opts)\<rceil>
          (thickness fl (cell_size fl (measureSquare e opts) (opt_cols opts)) (opt_lineWidthRatio opts))
          \<in> set (drop 6 (fst (draw fl e opts g)))"
        using w by blast
    }
  next
    fix r
    assume "has_shape (opt_cols opts) (opt_rows opts) g" "r \<in> set (drop 6 (fst (draw fl e opts g)))"
    then show "\<exists>i j. 0 \<le> i \<and> i < opt_cols opts \<and> 0 \<le> j \<and> j < opt_rows opts \<and>
        r \<in> set (cell_rects fl (cell_size fl (measureSquare e opts) (opt_cols opts))
               (thickness fl (cell_size fl (measureSquare e opts) (opt_cols opts))
                  (opt_lineWidthRatio opts))
               (opt_cols opts) (opt_rows opts) (i, j) (walls (g ! nat j ! nat i)))"
      by (rule emitted_is_cell_rect)
  qed
  show ?thesis
    by (intro conjI 1 2 3 4 5 6 cell_order_cells distinct_cell_order length_cell_order)
qed

theorem draw_geometry_witness:
  "cell_size (\<lambda>x. x) 500 5 = 100 \<and> thickness (\<lambda>x. x) (cell_size (\<lambda>x. x) 500 5) 0.25 = 25
   \<and> snd (draw (\<lambda>x. x) \<lparr>rect_width = 200, rect_height = 200, devicePixelRatio = 1\<rparr>
        (w_opts example_widget) (w_grid example_widget)) = None
   \<and> drop 6 (fst (draw (\<lambda>x. x) \<lparr>rect_width = 200, rect_height = 200, devicePixelRatio = 1\<rparr>
        (w_opts example_widget) (w_grid example_widget)))
      = [FillRect 0 0 25 100,
         FillRect 100 0 100 25, FillRect 175 0 25 100,
         FillRect 0 100 100 25, FillRect 0 100 25 100, FillRect 0 175 100 25,
         FillRect 175 100 25 100]
   \<and> FillRect 175 0 25 100
        \<in> set (drop 6 (fst (draw (\<lambda>x. x) \<lparr>rect_width = 200, rect_height = 200, devicePixelRatio = 1\<rparr>
             (w_opts example_widget) (w_grid example_widget))))
   \<and> cell_order 2 2 = [(0, 0), (1, 0), (0, 1), (1, 1)]"
proof -
  let ?E = "\<lparr>rect_width = 200, rect_height = 200, devicePixelRatio = 1\<rparr>"
  have s: "has_shape (opt_cols (w_opts example_widget)) (opt_rows (w_opts example_widget))
      (w_grid example_widget)"
    by (simp add: example_draw_options) (simp add: example_widget_def has_shape_2_2)
  note t = draw_geometry[where fl = "\<lambda>x. x" and opts = "w_opts example_widget"
        and g = "w_grid example_widget" and e = ?E and cols = 2 and rows = 2]
  note rest = t[THEN conjunct2, THEN conjunct2]
  note scenario = rest[THEN conjunct1]
  note emitted = rest[THEN conjunct2, THEN conjunct2, THEN conjunct1, THEN mp, OF s]
  note cells = rest[THEN conjunct2, THEN conjunct2, THEN conjunct2, THEN conjunct2, THEN conjunct2,
      THEN conjunct2, THEN mp, OF s]
  have cs: "cell_size (\<lambda>x. x) 200 2 = 100" "thickness (\<lambda>x. x) 100 0.25 = 25"
    by (simp_all add: cell_size_def thickness_def)
  have 1: "cell_size (\<lambda>x. x) 500 5 = 100 \<and> thickness (\<lambda>x. x) (cell_size (\<lambda>x. x) 500 5) 0.25 = 25"
    by (rule scenario[THEN mp, OF refl, THEN mp, OF refl])
  from emitted
  have 2: "snd (draw (\<lambda>x. x) ?E (w_opts example_widget) (w_grid example_widget)) = None"
    by (rule conjunct1)
  from emitted
  have "drop 6 (fst (draw (\<lambda>x. x) ?E (w_opts example_widget) (w_grid example_widget)))
      = concat (map (\<lambda>p. cell_rects (\<lambda>x. x) 100 25 2 2 p (walls (cell_of (w_grid example_widget) p)))
           (cell_order 2 2))"
    unfolding example_draw_options cs by (rule conjunct2)
  then have 3: "drop 6 (fst (draw (\<lambda>x. x) ?E (w_opts example_widget) (w_grid example_widget)))
      = [FillRect 0 0 25 100,
         FillRect 100 0 100 25, FillRect 175 0 25 100,
         FillRect 0 100 100 25, FillRect 0 100 25 100, FillRect 0 175 100 25,
         FillRect 175 100 25 100]"
    by (simp add: cell_order_2_2 cell_rects_def cell_of_def example_widget_def)
  have 4: "FillRect 175 0 25 100
        \<in> set (drop 6 (fst (draw (\<lambda>x. x) ?E (w_opts example_widget) (w_grid example_widget))))"
    using cells[unfolded Let_def, THEN conjunct1, rule_format, where i = 1 and j = 0]
    by (simp add: example_draw_options cs thickness_def) (simp add: example_widget_def)
  show ?thesis
    using 1 2 3 4 cell_order_2_2 by blast
qed

text \<open>
  C8, at a failing input. A widget is created with \<^verbatim>\<open>{ cols: 2, rows: 2, seed: 0 }\<close>; the
  caller takes a snapshot and assigns \<^verbatim>\<open>snapshot.options.entry.side = "bottom"\<close>. The options
  object of the snapshot is a copy, but its entry is the widget's own entry object: after the
  assignment the widget's configuration has the entry side \<open>bottom\<close>, and the next
  \<^verbatim>\<open>regenerate()\<close> carves a different grid than it would have.
\<close>

theorem snapshot_shares_entry_object:
  "(\<exists>ops. createMazeWidget fl e True example_options [] = Inr (example_widget, ops))
   \<and> opt_entry (s_options (getState example_widget)) = opt_entry (w_opts example_widget)
   \<and> deref (w_store example_widget) (opt_entry (w_opts example_widget))
       = Some \<lparr>pt_x = Some 0, pt_y = Some 0, pt_side = Some Top\<rparr>
   \<and> deref (w_store (after_mutation (AssignEntryFields (\<lambda>p. p\<lparr>pt_side := Some Bottom\<rparr>)) example_widget))
        (opt_entry (w_opts (after_mutation (AssignEntryFields (\<lambda>p. p\<lparr>pt_side := Some Bottom\<rparr>)) example_widget)))
       = Some \<lparr>pt_x = Some 0, pt_y = Some 0, pt_side = Some Bottom\<rparr>
   \<and> w_grid (fst (regenerate fl e no_options example_widget))
       = [[vcell False False True True, vcell True True False False],
          [vcell True False True True, vcell False True False False]]
   \<and> w_grid (fst (regenerate fl e no_options
        (after_mutation (AssignEntryFields (\<lambda>p. p\<lparr>pt_side := Some Bottom\<rparr>)) example_widget)))
       = [[vcell True False False True, vcell True True False False],
          [vcell True False True True, vcell False True False False]]"
proof -
  let ?m = "AssignEntryFields (\<lambda>p. p\<lparr>pt_side := Some Bottom\<rparr>)"
  have same: "assign (w_opts example_widget) no_options = w_opts example_widget"
    by (simp add: assign_def no_options_def)
  have 1: "w_grid (fst (regenerate fl e no_options example_widget))
       = [[vcell False False True True, vcell True True False False],
          [vcell True False True True, vcell False True False False]]"
    using example_carve by (simp add: regenerate_def Let_def same) (simp add: example_widget_def)
  have st: "w_store (after_mutation ?m example_widget)
      = [\<lparr>pt_x = Some 0, pt_y = Some 0, pt_side = Some Bottom\<rparr>,
         \<lparr>pt_x = None, pt_y = None, pt_side = Some Bottom\<rparr>]"
    by (simp add: after_mutation_def getState_def example_widget_def example_options_def
        no_options_def assign_def defaults_def store_update_def)
  have op: "w_opts (after_mutation ?m example_widget) = w_opts example_widget"
    by (simp add: after_mutation_def)
  have "carve_opts (w_store (after_mutation ?m example_widget)) (w_opts example_widget)
      = carveMaze 2 2 0 (Some \<lparr>pt_x = Some 0, pt_y = Some 0, pt_side = Some Bottom\<rparr>)
          (Some \<lparr>pt_x = None, pt_y = None, pt_side = Some Bottom\<rparr>)"
    unfolding st
    by (simp add: carve_opts_def example_widget_def example_options_def no_options_def
        assign_def defaults_def deref_def)
  also have "\<dots> = carveMaze 2 2 0 (Some \<lparr>pt_x = Some 0, pt_y = Some 0, pt_side = Some Bottom\<rparr>) None"
    by (rule carveMaze_depends_on) (simp_all add: entryFinal_def exitFinal_def)
  finally have 2: "w_grid (fst (regenerate fl e no_options (after_mutation ?m example_widget)))
       = [[vcell True False False True, vcell True True False False],
          [vcell True False True True, vcell False True False False]]"
    by (simp add: regenerate_def Let_def op same carveMaze_2_2_0_inward)
  have 3: "deref (w_store example_widget) (opt_entry (w_opts example_widget))
       = Some \<lparr>pt_x = Some 0, pt_y = Some 0, pt_side = Some Top\<rparr>"
    by (simp add: example_widget_def example_options_def no_options_def assign_def defaults_def
        deref_def)
  have 4: "deref (w_store (after_mutation ?m example_widget))
        (opt_entry (w_opts (after_mutation ?m example_widget)))
       = Some \<lparr>pt_x = Some 0, pt_y = Some 0, pt_side = Some Bottom\<rparr>"
    unfolding st op
    by (simp add: example_widget_def example_options_def no_options_def assign_def defaults_def
        deref_def)
  have 5: "opt_entry (s_options (getState example_widget)) = opt_entry (w_opts example_widget)"
    by (simp add: getState_def)
  from example_created[of fl e] 1 2 3 4 5 show ?thesis by (intro conjI)
qed

end
